theory Spec2Isabelle
  imports Complex_Main
begin

section \<open>Common conventions\<close>

text \<open>
  The theory embeds the sequence engine of \<^verbatim>\<open>src/2/sequence.c\<close> (batch operators, the
  online-capability classifier and the streaming state machine) and the combination
  operators of \<^verbatim>\<open>src/3/src/ops.c\<close> with the sliding window of \<^verbatim>\<open>src/3/src/seq.c\<close>.

  \<^item> A \<^verbatim>\<open>seq_t\<close> (pointer \<^verbatim>\<open>data\<close> plus \<^verbatim>\<open>length\<close>) is the list of its samples; the
    empty list stands for \<^verbatim>\<open>data == NULL, length == 0\<close>.  A pointer argument is an
    \<open>option\<close>, \<open>None\<close> being \<^verbatim>\<open>NULL\<close>.
  \<^item> \<^verbatim>\<open>size_t\<close> is a natural number below \<open>2 ^ 64\<close>; where a caller-supplied
    parameter enters a size computation the wrap-around is written out.
  \<^item> Array accesses are checked: a read or write outside the array is undefined
    behaviour in C and makes the whole call \<open>Undefined_Behaviour\<close>.
  \<^item> \<^verbatim>\<open>calloc\<close>/\<^verbatim>\<open>malloc\<close> are a parameter \<open>mem\<close>: \<open>mem n\<close> tells whether a block
    of \<open>n\<close> samples can be obtained.
  \<^item> The sample type (\<^verbatim>\<open>double\<close>) is left abstract: every function is written for any
    type with the operations it uses (\<open>0\<close>, \<open>+\<close>, \<open>-\<close>, \<open>*\<close>, \<open>/\<close>, \<open>\<le>\<close>), with no law
    assumed, so that results about the functions hold for any arithmetic.  Section
    \<open>Double arithmetic\<close> gives the arithmetic the program runs on.
\<close>

datatype 'r outcome = Undefined_Behaviour | Returns 'r

definition size_wrap :: "nat \<Rightarrow> nat" where
  "size_wrap n = n mod 2 ^ 64"

definition rd :: "'a list \<Rightarrow> nat \<Rightarrow> 'a option" where
  "rd xs i = (if i < length xs then Some (xs ! i) else None)"

definition wr :: "'a list \<Rightarrow> nat \<Rightarrow> 'a \<Rightarrow> 'a list option" where
  "wr xs i v = (if i < length xs then Some (xs[i := v]) else None)"


text \<open>Unsigned subtraction \<^verbatim>\<open>a - b\<close> on \<^verbatim>\<open>size_t\<close>, and the casts between
  \<^verbatim>\<open>size_t\<close> and the 64-bit \<^verbatim>\<open>long\<close>.\<close>

definition size_sub :: "nat \<Rightarrow> nat \<Rightarrow> nat" where
  "size_sub a b = (if b \<le> a then a - b else a + 2 ^ 64 - b)"

definition to_long :: "nat \<Rightarrow> int" where
  "to_long n = (if n < 2 ^ 63 then int n else int n - 2 ^ 64)"

definition to_size :: "int \<Rightarrow> nat" where
  "to_size l = nat (l mod 2 ^ 64)"

type_synonym 'a seq_t = "'a list"

section \<open>sequence.h: error codes, operators, streaming state\<close>

datatype seq_err_t =
  SEQ_OK | SEQ_ERR_ARG | SEQ_ERR_NOMEM | SEQ_ERR_STATE | SEQ_ERR_UNSUPPORTED

datatype seq_op_type =
  SEQ_OP_PAD_FRONT | SEQ_OP_PAD_BACK | SEQ_OP_DELAY | SEQ_OP_ADVANCE | SEQ_OP_REVERSE
  | SEQ_OP_UPSAMPLE | SEQ_OP_DOWNSAMPLE | SEQ_OP_DIFF | SEQ_OP_CUMSUM

text \<open>The field \<^verbatim>\<open>last\<close> is called \<open>last_x\<close>; \<^verbatim>\<open>buf\<close> is the list of its
  \<^verbatim>\<open>buf_size\<close> slots (\<open>[]\<close> for \<^verbatim>\<open>NULL\<close>).\<close>

record 'a seq_stream_t =
  active :: bool
  op :: seq_op_type
  param_main :: nat
  param_aux :: nat
  fill :: 'a
  buf :: "'a list"
  buf_size :: nat
  buf_head :: nat
  counter :: nat
  remaining :: nat
  last_x :: 'a
  has_last :: bool
  acc :: 'a

section \<open>sequence.c: capability classifier and stream construction\<close>

fun seq_online_capable :: "seq_op_type \<Rightarrow> bool \<Rightarrow> bool" where
  "seq_online_capable opr True =
     (case opr of
        SEQ_OP_PAD_FRONT \<Rightarrow> True
      | SEQ_OP_DELAY \<Rightarrow> True
      | SEQ_OP_UPSAMPLE \<Rightarrow> True
      | SEQ_OP_DOWNSAMPLE \<Rightarrow> True
      | SEQ_OP_DIFF \<Rightarrow> True
      | SEQ_OP_CUMSUM \<Rightarrow> True
      | SEQ_OP_PAD_BACK \<Rightarrow> False
      | SEQ_OP_ADVANCE \<Rightarrow> False
      | SEQ_OP_REVERSE \<Rightarrow> False)"
| "seq_online_capable opr False =
     (case opr of
        SEQ_OP_PAD_FRONT \<Rightarrow> True
      | SEQ_OP_PAD_BACK \<Rightarrow> True
      | SEQ_OP_DELAY \<Rightarrow> True
      | SEQ_OP_ADVANCE \<Rightarrow> True
      | SEQ_OP_REVERSE \<Rightarrow> True
      | SEQ_OP_UPSAMPLE \<Rightarrow> True
      | SEQ_OP_DOWNSAMPLE \<Rightarrow> True
      | SEQ_OP_DIFF \<Rightarrow> True
      | SEQ_OP_CUMSUM \<Rightarrow> True)"

definition seq_stream_reset :: "'a::zero seq_stream_t \<Rightarrow> 'a seq_stream_t" where
  "seq_stream_reset st =
     st\<lparr>active := False, op := SEQ_OP_PAD_FRONT, param_main := 0, param_aux := 0,
        fill := 0, buf := [], buf_size := 0, buf_head := 0, counter := 0,
        remaining := 0, last_x := 0, has_last := False, acc := 0\<rparr>"

text \<open>\<^verbatim>\<open>seq_stream_init\<close> returns the error code and the state object after the call.
  For a delay the buffer is obtained by \<^verbatim>\<open>malloc(param_main * sizeof(double))\<close>.  The byte
  count is computed in \<^verbatim>\<open>size_t\<close>, \<^verbatim>\<open>sizeof(double)\<close> being 8, so the block has
  \<open>size_wrap (pm * 8) div 8\<close> slots: fewer than \<open>pm\<close> when the product wraps.  The loop
  \<open>stream_fill_loop\<close> then sets the slots \<open>0, \<dots>, buf_size - 1\<close> to \<^verbatim>\<open>fill\<close>, with
  \<^verbatim>\<open>buf_size = param_main\<close>; a store beyond the block is undefined behaviour.  (The content
  of a fresh block is indeterminate in C; here it is \<open>0\<close>, and the loop overwrites all of it
  whenever the call returns.)\<close>

function stream_fill_loop :: "nat \<Rightarrow> 'a \<Rightarrow> nat \<Rightarrow> 'a list \<Rightarrow> 'a list option" where
  "stream_fill_loop bsize fl i b =
     (if i < bsize then
        (case wr b i fl of
           None \<Rightarrow> None
         | Some b' \<Rightarrow> stream_fill_loop bsize fl (Suc i) b')
      else Some b)"
  by pat_completeness auto
termination
  by (relation "measure (\<lambda>(bsize, fl, i, b). bsize - i)") auto

declare stream_fill_loop.simps [simp del]

definition seq_stream_init ::
  "(nat \<Rightarrow> bool) \<Rightarrow> 'a::zero seq_stream_t option \<Rightarrow> seq_op_type \<Rightarrow> nat \<Rightarrow> nat \<Rightarrow> 'a
     \<Rightarrow> (seq_err_t \<times> 'a seq_stream_t option) outcome" where
  "seq_stream_init mem st opr pm pa fl =
     (case st of
        None \<Rightarrow> Returns (SEQ_ERR_ARG, None)
      | Some s0 \<Rightarrow>
          let s = (seq_stream_reset s0)\<lparr>op := opr, fill := fl\<rparr> in
          (case opr of
             SEQ_OP_PAD_FRONT \<Rightarrow>
               Returns (SEQ_OK, Some (s\<lparr>param_main := pm, remaining := pm, active := True\<rparr>))
           | SEQ_OP_DELAY \<Rightarrow>
               if pm = 0 then Returns (SEQ_OK, Some (s\<lparr>param_main := pm, active := True\<rparr>))
               else
                 (let slots = size_wrap (pm * 8) div 8 in
                  if \<not> mem slots then Returns (SEQ_ERR_NOMEM, Some (s\<lparr>param_main := pm\<rparr>))
                  else
                    (case stream_fill_loop pm fl 0 (replicate slots 0) of
                       None \<Rightarrow> Undefined_Behaviour
                     | Some b \<Rightarrow>
                         Returns (SEQ_OK, Some (s\<lparr>param_main := pm, buf := b, buf_size := pm,
                                                  buf_head := 0, active := True\<rparr>))))
           | SEQ_OP_UPSAMPLE \<Rightarrow>
               if pm = 0 then Returns (SEQ_ERR_ARG, Some s)
               else Returns (SEQ_OK, Some (s\<lparr>param_main := pm, remaining := 0, active := True\<rparr>))
           | SEQ_OP_DOWNSAMPLE \<Rightarrow>
               if pm = 0 then Returns (SEQ_ERR_ARG, Some s)
               else Returns (SEQ_OK, Some (s\<lparr>param_main := pm, counter := 0, active := True\<rparr>))
           | SEQ_OP_DIFF \<Rightarrow> Returns (SEQ_OK, Some (s\<lparr>has_last := False, active := True\<rparr>))
           | SEQ_OP_CUMSUM \<Rightarrow> Returns (SEQ_OK, Some (s\<lparr>acc := 0, active := True\<rparr>))
           | SEQ_OP_PAD_BACK \<Rightarrow> Returns (SEQ_ERR_UNSUPPORTED, Some s)
           | SEQ_OP_ADVANCE \<Rightarrow> Returns (SEQ_ERR_UNSUPPORTED, Some s)
           | SEQ_OP_REVERSE \<Rightarrow> Returns (SEQ_ERR_UNSUPPORTED, Some s)))"

section \<open>sequence.c: one streaming step\<close>

text \<open>\<^verbatim>\<open>seq_stream_step st has_input x y has_output\<close>: the arguments \<open>y\<close> and
  \<open>has_output\<close> tell whether the two output pointers are non-null.  The result is the
  error code, the state object after the call, the value stored through \<^verbatim>\<open>y\<close> and the
  value stored through \<^verbatim>\<open>has_output\<close> (\<open>None\<close> when nothing was stored).\<close>

type_synonym 'a step_ret = "seq_err_t \<times> 'a seq_stream_t option \<times> 'a option \<times> bool option"

definition seq_stream_step ::
  "'a::{zero,plus,minus} seq_stream_t option \<Rightarrow> bool \<Rightarrow> 'a \<Rightarrow> bool \<Rightarrow> bool
     \<Rightarrow> 'a step_ret outcome" where
  "seq_stream_step st has_input x y has_output =
     (case st of
        None \<Rightarrow> Returns (SEQ_ERR_ARG, None, None, None)
      | Some s \<Rightarrow>
          if \<not> has_output then Returns (SEQ_ERR_ARG, st, None, None)
          else if \<not> active s then Returns (SEQ_ERR_STATE, st, None, None)
          else
          (case op s of
             SEQ_OP_PAD_FRONT \<Rightarrow>
               if remaining s > 0 then
                 (if has_input then Returns (SEQ_ERR_STATE, st, None, Some False)
                  else Returns (SEQ_OK, Some (s\<lparr>remaining := remaining s - 1\<rparr>),
                                (if y then Some 0 else None), Some True))
               else if has_input \<and> y then Returns (SEQ_OK, st, Some x, Some True)
               else Returns (SEQ_OK, st, None, Some False)
           | SEQ_OP_DELAY \<Rightarrow>
               if \<not> has_input then Returns (SEQ_OK, st, None, Some False)
               else if \<not> y then Returns (SEQ_ERR_ARG, st, None, Some False)
               else if param_main s = 0 then Returns (SEQ_OK, st, Some x, Some True)
               else
               (case rd (buf s) (buf_head s) of
                  None \<Rightarrow> Undefined_Behaviour
                | Some v \<Rightarrow>
                    let h = buf_head s + 1 in
                    Returns (SEQ_OK,
                             Some (s\<lparr>buf := (buf s)[buf_head s := x],
                                     buf_head := (if h \<ge> buf_size s then 0 else h)\<rparr>),
                             Some v, Some True))
           | SEQ_OP_UPSAMPLE \<Rightarrow>
               if remaining s > 0 then
                 (if has_input then Returns (SEQ_ERR_STATE, st, None, Some False)
                  else Returns (SEQ_OK, Some (s\<lparr>remaining := remaining s - 1\<rparr>),
                                (if y then Some 0 else None), Some True))
               else if \<not> has_input then Returns (SEQ_OK, st, None, Some False)
               else if \<not> y then Returns (SEQ_ERR_ARG, st, None, Some False)
               else if param_main s > 1
                 then Returns (SEQ_OK, Some (s\<lparr>remaining := param_main s - 1\<rparr>),
                               Some x, Some True)
                 else Returns (SEQ_OK, st, Some x, Some True)
           | SEQ_OP_DOWNSAMPLE \<Rightarrow>
               if \<not> has_input then Returns (SEQ_OK, st, None, Some False)
               else if param_main s = 0 then Returns (SEQ_ERR_STATE, st, None, Some False)
               else if counter s mod param_main s = 0 then
                 (if \<not> y then Returns (SEQ_ERR_ARG, st, None, Some False)
                  else Returns (SEQ_OK, Some (s\<lparr>counter := size_wrap (counter s + 1)\<rparr>),
                                Some x, Some True))
               else Returns (SEQ_OK, Some (s\<lparr>counter := size_wrap (counter s + 1)\<rparr>),
                             None, Some False)
           | SEQ_OP_DIFF \<Rightarrow>
               if \<not> has_input then Returns (SEQ_OK, st, None, Some False)
               else if \<not> y then Returns (SEQ_ERR_ARG, st, None, Some False)
               else if \<not> has_last s
                 then Returns (SEQ_OK, Some (s\<lparr>last_x := x, has_last := True\<rparr>),
                               Some x, Some True)
                 else Returns (SEQ_OK, Some (s\<lparr>last_x := x\<rparr>), Some (x - last_x s), Some True)
           | SEQ_OP_CUMSUM \<Rightarrow>
               if \<not> has_input then Returns (SEQ_OK, st, None, Some False)
               else if \<not> y then Returns (SEQ_ERR_ARG, st, None, Some False)
               else Returns (SEQ_OK, Some (s\<lparr>acc := acc s + x\<rparr>), Some (acc s + x), Some True)
           | SEQ_OP_PAD_BACK \<Rightarrow> Returns (SEQ_ERR_UNSUPPORTED, st, None, Some False)
           | SEQ_OP_ADVANCE \<Rightarrow> Returns (SEQ_ERR_UNSUPPORTED, st, None, Some False)
           | SEQ_OP_REVERSE \<Rightarrow> Returns (SEQ_ERR_UNSUPPORTED, st, None, Some False)))"

section \<open>sequence.c: allocation and the batch operators\<close>

definition seq_alloc ::
  "(nat \<Rightarrow> bool) \<Rightarrow> 'a::zero seq_t option \<Rightarrow> nat \<Rightarrow> seq_err_t \<times> 'a seq_t option" where
  "seq_alloc mem seq len =
     (case seq of
        None \<Rightarrow> (SEQ_ERR_ARG, None)
      | Some _ \<Rightarrow>
          if len = 0 then (SEQ_OK, Some [])
          else if \<not> mem len then (SEQ_ERR_NOMEM, Some [])
          else (SEQ_OK, Some (replicate len 0)))"

definition seq_free :: "'a seq_t option \<Rightarrow> 'a seq_t option" where
  "seq_free seq = (case seq of None \<Rightarrow> None | Some _ \<Rightarrow> Some [])"

definition seq_prepare_output ::
  "(nat \<Rightarrow> bool) \<Rightarrow> 'a::zero seq_t option \<Rightarrow> nat \<Rightarrow> seq_err_t \<times> 'a seq_t option" where
  "seq_prepare_output mem dst len =
     (case dst of
        None \<Rightarrow> (SEQ_ERR_ARG, None)
      | Some d \<Rightarrow>
          if d = [] \<or> length d \<noteq> len then seq_alloc mem (seq_free dst) len
          else (SEQ_OK, dst))"

text \<open>\<^verbatim>\<open>seq_pad_front\<close>: the two \<^verbatim>\<open>while\<close> loops and the function.  (A loop counter
  that stays below a \<^verbatim>\<open>size_t\<close> bound cannot wrap; in the second loop \<open>i\<close> could only
  wrap after a write outside \<open>dst\<close>.)\<close>

function pad_front_zeros :: "nat \<Rightarrow> nat \<Rightarrow> 'a::zero list \<Rightarrow> (nat \<times> 'a list) option" where
  "pad_front_zeros zeros i d =
     (if i < zeros then
        (case wr d i 0 of
           None \<Rightarrow> None
         | Some d' \<Rightarrow> pad_front_zeros zeros (Suc i) d')
      else Some (i, d))"
  by pat_completeness auto
termination
  by (relation "measure (\<lambda>(zeros, i, d). zeros - i)") auto

function pad_front_copy :: "'a list \<Rightarrow> nat \<Rightarrow> nat \<Rightarrow> 'a list \<Rightarrow> 'a list option" where
  "pad_front_copy s i j d =
     (if j < length s then
        (case rd s j of
           None \<Rightarrow> None
         | Some v \<Rightarrow>
             (case wr d i v of
                None \<Rightarrow> None
              | Some d' \<Rightarrow> pad_front_copy s (Suc i) (Suc j) d'))
      else Some d)"
  by pat_completeness auto
termination
  by (relation "measure (\<lambda>(s, i, j, d). length s - j)") auto

definition seq_pad_front ::
  "(nat \<Rightarrow> bool) \<Rightarrow> 'a::zero seq_t option \<Rightarrow> nat \<Rightarrow> 'a seq_t option
     \<Rightarrow> (seq_err_t \<times> 'a seq_t option) outcome" where
  "seq_pad_front mem src zeros dst =
     (case (src, dst) of
        (Some s, Some _) \<Rightarrow>
          (let out_len = size_wrap (length s + zeros) in
           case seq_prepare_output mem dst out_len of
             (err, dst') \<Rightarrow>
               if err \<noteq> SEQ_OK then Returns (err, dst')
               else
                 (case dst' of
                    None \<Rightarrow> Undefined_Behaviour
                  | Some d \<Rightarrow>
                      (case pad_front_zeros zeros 0 d of
                         None \<Rightarrow> Undefined_Behaviour
                       | Some (i, d1) \<Rightarrow>
                           (case pad_front_copy s i 0 d1 of
                              None \<Rightarrow> Undefined_Behaviour
                            | Some d2 \<Rightarrow> Returns (SEQ_OK, Some d2)))))
      | _ \<Rightarrow> Returns (SEQ_ERR_ARG, dst))"

text \<open>\<^verbatim>\<open>seq_delay\<close>.\<close>

function delay_loop :: "'a list \<Rightarrow> nat \<Rightarrow> 'a \<Rightarrow> nat \<Rightarrow> 'a list \<Rightarrow> 'a list option" where
  "delay_loop s delay fl i d =
     (if i < length s then
        (if i < delay then
           (case wr d i fl of
              None \<Rightarrow> None
            | Some d' \<Rightarrow> delay_loop s delay fl (Suc i) d')
         else
           (case rd s (i - delay) of
              None \<Rightarrow> None
            | Some v \<Rightarrow>
                (case wr d i v of
                   None \<Rightarrow> None
                 | Some d' \<Rightarrow> delay_loop s delay fl (Suc i) d')))
      else Some d)"
  by pat_completeness auto
termination
  by (relation "measure (\<lambda>(s, delay, fl, i, d). length s - i)") auto

definition seq_delay ::
  "(nat \<Rightarrow> bool) \<Rightarrow> 'a::zero seq_t option \<Rightarrow> nat \<Rightarrow> 'a \<Rightarrow> 'a seq_t option
     \<Rightarrow> (seq_err_t \<times> 'a seq_t option) outcome" where
  "seq_delay mem src delay fl dst =
     (case (src, dst) of
        (Some s, Some _) \<Rightarrow>
          (case seq_prepare_output mem dst (length s) of
             (err, dst') \<Rightarrow>
               if err \<noteq> SEQ_OK then Returns (err, dst')
               else
                 (case dst' of
                    None \<Rightarrow> Undefined_Behaviour
                  | Some d \<Rightarrow>
                      (case delay_loop s delay fl 0 d of
                         None \<Rightarrow> Undefined_Behaviour
                       | Some d1 \<Rightarrow> Returns (SEQ_OK, Some d1))))
      | _ \<Rightarrow> Returns (SEQ_ERR_ARG, dst))"

text \<open>\<^verbatim>\<open>seq_upsample\<close>: the zeroing loop, the placing loop and the function.\<close>

function upsample_zero :: "nat \<Rightarrow> nat \<Rightarrow> 'a::zero list \<Rightarrow> 'a list option" where
  "upsample_zero out_len n d =
     (if n < out_len then
        (case wr d n 0 of
           None \<Rightarrow> None
         | Some d' \<Rightarrow> upsample_zero out_len (Suc n) d')
      else Some d)"
  by pat_completeness auto
termination
  by (relation "measure (\<lambda>(out_len, n, d). out_len - n)") auto

function upsample_place :: "'a list \<Rightarrow> nat \<Rightarrow> nat \<Rightarrow> 'a list \<Rightarrow> 'a list option" where
  "upsample_place s factor i d =
     (if i < length s then
        (case rd s i of
           None \<Rightarrow> None
         | Some v \<Rightarrow>
             (case wr d (size_wrap (i * factor)) v of
                None \<Rightarrow> None
              | Some d' \<Rightarrow> upsample_place s factor (Suc i) d'))
      else Some d)"
  by pat_completeness auto
termination
  by (relation "measure (\<lambda>(s, factor, i, d). length s - i)") auto

definition seq_upsample ::
  "(nat \<Rightarrow> bool) \<Rightarrow> 'a::zero seq_t option \<Rightarrow> nat \<Rightarrow> 'a seq_t option
     \<Rightarrow> (seq_err_t \<times> 'a seq_t option) outcome" where
  "seq_upsample mem src factor dst =
     (case (src, dst) of
        (Some s, Some _) \<Rightarrow>
          if factor = 0 then Returns (SEQ_ERR_ARG, dst)
          else
            (let out_len = size_wrap (length s * factor) in
             case seq_prepare_output mem dst out_len of
               (err, dst') \<Rightarrow>
                 if err \<noteq> SEQ_OK then Returns (err, dst')
                 else
                   (case dst' of
                      None \<Rightarrow> Undefined_Behaviour
                    | Some d \<Rightarrow>
                        (case upsample_zero out_len 0 d of
                           None \<Rightarrow> Undefined_Behaviour
                         | Some d1 \<Rightarrow>
                             (case upsample_place s factor 0 d1 of
                                None \<Rightarrow> Undefined_Behaviour
                              | Some d2 \<Rightarrow> Returns (SEQ_OK, Some d2)))))
      | _ \<Rightarrow> Returns (SEQ_ERR_ARG, dst))"

text \<open>\<^verbatim>\<open>seq_downsample\<close>.\<close>

function downsample_loop :: "'a list \<Rightarrow> nat \<Rightarrow> nat \<Rightarrow> nat \<Rightarrow> 'a list \<Rightarrow> 'a list option" where
  "downsample_loop s factor out_len i d =
     (if i < out_len then
        (case rd s (size_wrap (i * factor)) of
           None \<Rightarrow> None
         | Some v \<Rightarrow>
             (case wr d i v of
                None \<Rightarrow> None
              | Some d' \<Rightarrow> downsample_loop s factor out_len (Suc i) d'))
      else Some d)"
  by pat_completeness auto
termination
  by (relation "measure (\<lambda>(s, factor, out_len, i, d). out_len - i)") auto

definition seq_downsample ::
  "(nat \<Rightarrow> bool) \<Rightarrow> 'a::zero seq_t option \<Rightarrow> nat \<Rightarrow> 'a seq_t option
     \<Rightarrow> (seq_err_t \<times> 'a seq_t option) outcome" where
  "seq_downsample mem src factor dst =
     (case (src, dst) of
        (Some s, Some _) \<Rightarrow>
          if factor = 0 then Returns (SEQ_ERR_ARG, dst)
          else
            (let out_len = length s div factor in
             case seq_prepare_output mem dst out_len of
               (err, dst') \<Rightarrow>
                 if err \<noteq> SEQ_OK then Returns (err, dst')
                 else
                   (case dst' of
                      None \<Rightarrow> Undefined_Behaviour
                    | Some d \<Rightarrow>
                        (case downsample_loop s factor out_len 0 d of
                           None \<Rightarrow> Undefined_Behaviour
                         | Some d1 \<Rightarrow> Returns (SEQ_OK, Some d1))))
      | _ \<Rightarrow> Returns (SEQ_ERR_ARG, dst))"

text \<open>\<^verbatim>\<open>seq_diff\<close>.\<close>

function diff_loop :: "'a::minus list \<Rightarrow> nat \<Rightarrow> 'a list \<Rightarrow> 'a list option" where
  "diff_loop s i d =
     (if i < length s then
        (case rd s i of
           None \<Rightarrow> None
         | Some v \<Rightarrow>
             (case rd s (i - 1) of
                None \<Rightarrow> None
              | Some u \<Rightarrow>
                  (case wr d i (v - u) of
                     None \<Rightarrow> None
                   | Some d' \<Rightarrow> diff_loop s (Suc i) d')))
      else Some d)"
  by pat_completeness auto
termination
  by (relation "measure (\<lambda>(s, i, d). length s - i)") auto

definition seq_diff ::
  "(nat \<Rightarrow> bool) \<Rightarrow> 'a::{zero,minus} seq_t option \<Rightarrow> 'a seq_t option
     \<Rightarrow> (seq_err_t \<times> 'a seq_t option) outcome" where
  "seq_diff mem src dst =
     (case (src, dst) of
        (Some s, Some _) \<Rightarrow>
          (case seq_prepare_output mem dst (length s) of
             (err, dst') \<Rightarrow>
               if err \<noteq> SEQ_OK then Returns (err, dst')
               else if length s = 0 then Returns (SEQ_OK, dst')
               else
                 (case dst' of
                    None \<Rightarrow> Undefined_Behaviour
                  | Some d \<Rightarrow>
                      (case rd s 0 of
                         None \<Rightarrow> Undefined_Behaviour
                       | Some v0 \<Rightarrow>
                           (case wr d 0 v0 of
                              None \<Rightarrow> Undefined_Behaviour
                            | Some d0 \<Rightarrow>
                                (case diff_loop s 1 d0 of
                                   None \<Rightarrow> Undefined_Behaviour
                                 | Some d1 \<Rightarrow> Returns (SEQ_OK, Some d1))))))
      | _ \<Rightarrow> Returns (SEQ_ERR_ARG, dst))"

text \<open>\<^verbatim>\<open>seq_cumsum\<close>; the local \<^verbatim>\<open>acc\<close> is called \<open>ac\<close>.\<close>

function cumsum_loop :: "'a::plus list \<Rightarrow> 'a \<Rightarrow> nat \<Rightarrow> 'a list \<Rightarrow> 'a list option" where
  "cumsum_loop s ac i d =
     (if i < length s then
        (case rd s i of
           None \<Rightarrow> None
         | Some v \<Rightarrow>
             (case wr d i (ac + v) of
                None \<Rightarrow> None
              | Some d' \<Rightarrow> cumsum_loop s (ac + v) (Suc i) d'))
      else Some d)"
  by pat_completeness auto
termination
  by (relation "measure (\<lambda>(s, ac, i, d). length s - i)") auto

definition seq_cumsum ::
  "(nat \<Rightarrow> bool) \<Rightarrow> 'a::{zero,plus} seq_t option \<Rightarrow> 'a seq_t option
     \<Rightarrow> (seq_err_t \<times> 'a seq_t option) outcome" where
  "seq_cumsum mem src dst =
     (case (src, dst) of
        (Some s, Some _) \<Rightarrow>
          (case seq_prepare_output mem dst (length s) of
             (err, dst') \<Rightarrow>
               if err \<noteq> SEQ_OK then Returns (err, dst')
               else
                 (case dst' of
                    None \<Rightarrow> Undefined_Behaviour
                  | Some d \<Rightarrow>
                      (case cumsum_loop s 0 0 d of
                         None \<Rightarrow> Undefined_Behaviour
                       | Some d1 \<Rightarrow> Returns (SEQ_OK, Some d1))))
      | _ \<Rightarrow> Returns (SEQ_ERR_ARG, dst))"

declare pad_front_zeros.simps [simp del] pad_front_copy.simps [simp del]
  delay_loop.simps [simp del] upsample_zero.simps [simp del] upsample_place.simps [simp del]
  downsample_loop.simps [simp del] diff_loop.simps [simp del] cumsum_loop.simps [simp del]

text \<open>The sequences the batch operators are compared with.\<close>

fun cums :: "'a::plus \<Rightarrow> 'a list \<Rightarrow> 'a list" where
  "cums a [] = []"
| "cums a (x # xs) = (a + x) # cums (a + x) xs"

fun diffs :: "'a::minus \<Rightarrow> 'a list \<Rightarrow> 'a list" where
  "diffs p [] = []"
| "diffs p (x # xs) = (x - p) # diffs x xs"

definition diff_list :: "'a::minus list \<Rightarrow> 'a list" where
  "diff_list xs = (case xs of [] \<Rightarrow> [] | x # ys \<Rightarrow> x # diffs x ys)"

definition upsample_list :: "nat \<Rightarrow> 'a::zero list \<Rightarrow> 'a list" where
  "upsample_list f xs = concat (map (\<lambda>x. x # replicate (f - 1) 0) xs)"

definition downsample_list :: "nat \<Rightarrow> 'a list \<Rightarrow> 'a list" where
  "downsample_list f xs = map (\<lambda>i. xs ! (i * f)) [0..<length xs div f]"

definition delay_list :: "nat \<Rightarrow> 'a \<Rightarrow> 'a list \<Rightarrow> 'a list" where
  "delay_list d fl xs = take (length xs) (replicate d fl @ xs)"

section \<open>seq.c: sequences and the sliding window\<close>

text \<open>The return value of the \<^verbatim>\<open>int\<close>-valued functions of \<^verbatim>\<open>seq.c\<close> and \<^verbatim>\<open>ops.c\<close> is
  kept as an integer (\<open>0\<close> or \<open>- 1\<close>).  The window field \<^verbatim>\<open>buf\<close> is called \<open>w_buf\<close>;
  it is \<open>None\<close> for \<^verbatim>\<open>NULL\<close>.\<close>

definition seq_init :: "(nat \<Rightarrow> bool) \<Rightarrow> 'a::zero seq_t option \<Rightarrow> nat \<Rightarrow> int \<times> 'a seq_t option" where
  "seq_init mem s len =
     (case s of
        None \<Rightarrow> (- 1, None)
      | Some _ \<Rightarrow>
          if len = 0 then (0, Some [])
          else if \<not> mem len then (- 1, Some [])
          else (0, Some (replicate len 0)))"

record 'a seq_window_t =
  w_buf :: "'a list option"
  capacity :: nat
  start :: nat
  count :: nat

definition seq_window_init ::
  "(nat \<Rightarrow> bool) \<Rightarrow> 'a::zero seq_window_t option \<Rightarrow> nat \<Rightarrow> int \<times> 'a seq_window_t option" where
  "seq_window_init mem w cap =
     (case w of
        None \<Rightarrow> (- 1, None)
      | Some w0 \<Rightarrow>
          let w1 = w0\<lparr>w_buf := None, capacity := 0, start := 0, count := 0\<rparr> in
          if cap = 0 then (- 1, Some w1)
          else if \<not> mem cap then (- 1, Some w1)
          else (0, Some (w1\<lparr>w_buf := Some (replicate cap 0), capacity := cap\<rparr>)))"

definition seq_window_push ::
  "'a seq_window_t option \<Rightarrow> 'a \<Rightarrow> 'a seq_window_t option outcome" where
  "seq_window_push w x =
     (case w of
        None \<Rightarrow> Returns None
      | Some ww \<Rightarrow>
          (case w_buf ww of
             None \<Rightarrow> Returns w
           | Some b \<Rightarrow>
               if capacity ww = 0 then Returns w
               else if count ww < capacity ww then
                 (case wr b (size_wrap (start ww + count ww) mod capacity ww) x of
                    None \<Rightarrow> Undefined_Behaviour
                  | Some b' \<Rightarrow>
                      Returns (Some (ww\<lparr>count := size_wrap (count ww + 1), w_buf := Some b'\<rparr>)))
               else
                 (case wr b (start ww) x of
                    None \<Rightarrow> Undefined_Behaviour
                  | Some b' \<Rightarrow>
                      Returns (Some (ww\<lparr>start := size_wrap (start ww + 1) mod capacity ww,
                                         w_buf := Some b'\<rparr>)))))"

definition seq_window_get :: "'a::zero seq_window_t option \<Rightarrow> nat \<Rightarrow> 'a outcome" where
  "seq_window_get w i =
     (case w of
        None \<Rightarrow> Returns 0
      | Some ww \<Rightarrow>
          (case w_buf ww of
             None \<Rightarrow> Returns 0
           | Some b \<Rightarrow>
               if capacity ww = 0 then Returns 0
               else if i \<ge> count ww then Returns 0
               else
                 (case rd b (size_wrap (start ww + i) mod capacity ww) of
                    None \<Rightarrow> Undefined_Behaviour
                  | Some v \<Rightarrow> Returns v)))"

text \<open>The invariant of an initialised window: the buffer has \<open>capacity\<close> slots (fewer
  than \<open>2 ^ 63\<close>, as any array of doubles in memory), \<open>count \<le> capacity\<close> and
  \<open>start < capacity\<close>.\<close>

definition window_inv :: "'a seq_window_t \<Rightarrow> bool" where
  "window_inv ww =
     (case w_buf ww of
        None \<Rightarrow> capacity ww = 0 \<and> start ww = 0 \<and> count ww = 0
      | Some b \<Rightarrow> length b = capacity ww \<and> 0 < capacity ww \<and> capacity ww < 2 ^ 63
                  \<and> count ww \<le> capacity ww \<and> start ww < capacity ww)"

section \<open>ops.c: convolution and cross-correlation\<close>

function conv_linear_inner ::
  "'a::{plus,times} list \<Rightarrow> 'a list \<Rightarrow> nat \<Rightarrow> nat \<Rightarrow> nat \<Rightarrow> 'a \<Rightarrow> 'a option" where
  "conv_linear_inner a b n k_max k ac =
     (if k \<le> k_max then
        (case rd a k of
           None \<Rightarrow> None
         | Some x \<Rightarrow>
             (case rd b (size_sub n k) of
                None \<Rightarrow> None
              | Some y \<Rightarrow> conv_linear_inner a b n k_max (Suc k) (ac + x * y)))
      else Some ac)"
  by pat_completeness auto
termination
  by (relation "measure (\<lambda>(a, b, n, k_max, k, ac). Suc k_max - k)") auto

function conv_linear_outer ::
  "'a::{zero,plus,times} list \<Rightarrow> 'a list \<Rightarrow> nat \<Rightarrow> nat \<Rightarrow> 'a list \<Rightarrow> 'a list option" where
  "conv_linear_outer a b ly n out =
     (if n < ly then
        (let la = length a; lb = length b;
             k_min = (if n \<ge> lb - 1 then n - (lb - 1) else 0);
             k_max = (if n < la - 1 then n else la - 1)
         in case conv_linear_inner a b n k_max k_min 0 of
              None \<Rightarrow> None
            | Some ac \<Rightarrow>
                (case wr out n ac of
                   None \<Rightarrow> None
                 | Some out' \<Rightarrow> conv_linear_outer a b ly (Suc n) out'))
      else Some out)"
  by pat_completeness auto
termination
  by (relation "measure (\<lambda>(a, b, ly, n, out). ly - n)") auto

definition seq_conv_linear ::
  "(nat \<Rightarrow> bool) \<Rightarrow> 'a::{zero,plus,times} seq_t option \<Rightarrow> 'a seq_t option \<Rightarrow> 'a seq_t option
     \<Rightarrow> (int \<times> 'a seq_t option) outcome" where
  "seq_conv_linear mem a b out =
     (case (a, b, out) of
        (Some av, Some bv, Some _) \<Rightarrow>
          if length av = 0 \<or> length bv = 0 then
            (case seq_init mem out 0 of
               (rc, out') \<Rightarrow> if rc \<noteq> 0 then Returns (- 1, out') else Returns (0, out'))
          else
            (let la = length av; lb = length bv; ly = size_wrap (la + lb - 1) in
             case seq_init mem out ly of
               (rc, out') \<Rightarrow>
                 if rc \<noteq> 0 then Returns (- 1, out')
                 else
                   (case out' of
                      None \<Rightarrow> Undefined_Behaviour
                    | Some y0 \<Rightarrow>
                        (case conv_linear_outer av bv ly 0 y0 of
                           None \<Rightarrow> Undefined_Behaviour
                         | Some y \<Rightarrow> Returns (0, Some y))))
      | _ \<Rightarrow> Returns (- 1, out))"



function conv_circular_inner ::
  "'a::{plus,times} list \<Rightarrow> 'a list \<Rightarrow> nat \<Rightarrow> nat \<Rightarrow> nat \<Rightarrow> 'a \<Rightarrow> 'a option" where
  "conv_circular_inner a b n nlen k ac =
     (if k < nlen then
        (case rd a k of
           None \<Rightarrow> None
         | Some x \<Rightarrow>
             (case rd b (size_wrap (n + nlen - k) mod nlen) of
                None \<Rightarrow> None
              | Some y \<Rightarrow> conv_circular_inner a b n nlen (Suc k) (ac + x * y)))
      else Some ac)"
  by pat_completeness auto
termination
  by (relation "measure (\<lambda>(a, b, n, nlen, k, ac). nlen - k)") auto

function conv_circular_outer ::
  "'a::{zero,plus,times} list \<Rightarrow> 'a list \<Rightarrow> nat \<Rightarrow> nat \<Rightarrow> 'a list \<Rightarrow> 'a list option" where
  "conv_circular_outer a b nlen n out =
     (if n < nlen then
        (case conv_circular_inner a b n nlen 0 0 of
           None \<Rightarrow> None
         | Some ac \<Rightarrow>
             (case wr out n ac of
                None \<Rightarrow> None
              | Some out' \<Rightarrow> conv_circular_outer a b nlen (Suc n) out'))
      else Some out)"
  by pat_completeness auto
termination
  by (relation "measure (\<lambda>(a, b, nlen, n, out). nlen - n)") auto

definition seq_conv_circular ::
  "(nat \<Rightarrow> bool) \<Rightarrow> 'a::{zero,plus,times} seq_t option \<Rightarrow> 'a seq_t option \<Rightarrow> 'a seq_t option
     \<Rightarrow> (int \<times> 'a seq_t option) outcome" where
  "seq_conv_circular mem a b out =
     (case (a, b, out) of
        (Some av, Some bv, Some _) \<Rightarrow>
          if length av = 0 \<or> length bv = 0 then Returns (- 1, out)
          else if length av \<noteq> length bv then Returns (- 1, out)
          else
            (let nlen = length av in
             case seq_init mem out nlen of
               (rc, out') \<Rightarrow>
                 if rc \<noteq> 0 then Returns (- 1, out')
                 else
                   (case out' of
                      None \<Rightarrow> Undefined_Behaviour
                    | Some y0 \<Rightarrow>
                        (case conv_circular_outer av bv nlen 0 y0 of
                           None \<Rightarrow> Undefined_Behaviour
                         | Some y \<Rightarrow> Returns (0, Some y))))
      | _ \<Rightarrow> Returns (- 1, out))"

function corr_cross_inner ::
  "'a::{plus,times} list \<Rightarrow> 'a list \<Rightarrow> int \<Rightarrow> nat \<Rightarrow> nat \<Rightarrow> 'a \<Rightarrow> 'a option" where
  "corr_cross_inner a b lag k_end k ac =
     (if k \<le> k_end then
        (case rd a k of
           None \<Rightarrow> None
         | Some x \<Rightarrow>
             (case rd b (to_size (to_long k + lag)) of
                None \<Rightarrow> None
              | Some y \<Rightarrow> corr_cross_inner a b lag k_end (Suc k) (ac + x * y)))
      else Some ac)"
  by pat_completeness auto
termination
  by (relation "measure (\<lambda>(a, b, lag, k_end, k, ac). Suc k_end - k)") auto

function corr_cross_outer ::
  "'a::{zero,plus,times} list \<Rightarrow> 'a list \<Rightarrow> nat \<Rightarrow> nat \<Rightarrow> 'a list \<Rightarrow> 'a list option" where
  "corr_cross_outer a b lr n out =
     (if n < lr then
        (let la = length a; lb = length b;
             lag = to_long n - to_long (lb - 1);
             k_start = (if lag < 0 then to_size (- lag) else 0);
             k_end0 = la - 1;
             k_end = (if to_long k_end0 + lag > to_long (lb - 1)
                      then (let ke = to_size (to_long (lb - 1) - lag)
                            in if to_long ke < 0 then 0 else ke)
                      else k_end0)
         in case (if k_start \<le> k_end then corr_cross_inner a b lag k_end k_start 0
                  else Some 0) of
              None \<Rightarrow> None
            | Some ac \<Rightarrow>
                (case wr out n ac of
                   None \<Rightarrow> None
                 | Some out' \<Rightarrow> corr_cross_outer a b lr (Suc n) out'))
      else Some out)"
  by pat_completeness auto
termination
  by (relation "measure (\<lambda>(a, b, lr, n, out). lr - n)") auto

definition seq_corr_cross ::
  "(nat \<Rightarrow> bool) \<Rightarrow> 'a::{zero,plus,times} seq_t option \<Rightarrow> 'a seq_t option \<Rightarrow> 'a seq_t option
     \<Rightarrow> (int \<times> 'a seq_t option) outcome" where
  "seq_corr_cross mem a b out =
     (case (a, b, out) of
        (Some av, Some bv, Some _) \<Rightarrow>
          if length av = 0 \<or> length bv = 0 then
            (case seq_init mem out 0 of
               (rc, out') \<Rightarrow> if rc \<noteq> 0 then Returns (- 1, out') else Returns (0, out'))
          else
            (let la = length av; lb = length bv; lr = size_wrap (la + lb - 1) in
             case seq_init mem out lr of
               (rc, out') \<Rightarrow>
                 if rc \<noteq> 0 then Returns (- 1, out')
                 else
                   (case out' of
                      None \<Rightarrow> Undefined_Behaviour
                    | Some y0 \<Rightarrow>
                        (case corr_cross_outer av bv lr 0 y0 of
                           None \<Rightarrow> Undefined_Behaviour
                         | Some y \<Rightarrow> Returns (0, Some y))))
      | _ \<Rightarrow> Returns (- 1, out))"

declare conv_circular_inner.simps [simp del] conv_circular_outer.simps [simp del]
declare corr_cross_inner.simps [simp del] corr_cross_outer.simps [simp del]

declare conv_linear_inner.simps [simp del] conv_linear_outer.simps [simp del]

text \<open>The accumulations the loops are compared with.  Each inner loop starts from \<open>0.0\<close>
  and adds the products in ascending order of \<open>k\<close>; \<open>foldl\<close> over the ascending list of
  the valid indices is that accumulation, whatever the arithmetic of the samples is (for
  doubles, with a rounding at every product and every addition).\<close>

definition conv_linear_acc :: "'a::{zero,plus,times} list \<Rightarrow> 'a list \<Rightarrow> nat \<Rightarrow> 'a" where
  "conv_linear_acc a b n =
     foldl (\<lambda>s k. s + a ! k * b ! (n - k)) 0
       (filter (\<lambda>k. k \<le> n \<and> n - k < length b) [0..<length a])"

definition conv_circular_acc :: "'a::{zero,plus,times} list \<Rightarrow> 'a list \<Rightarrow> nat \<Rightarrow> 'a" where
  "conv_circular_acc a b n =
     foldl (\<lambda>s k. s + a ! k * b ! nat ((int n - int k) mod int (length a))) 0 [0..<length a]"

definition corr_cross_acc :: "'a::{zero,plus,times} list \<Rightarrow> 'a list \<Rightarrow> nat \<Rightarrow> 'a" where
  "corr_cross_acc a b n =
     foldl (\<lambda>s k. s + a ! k * b ! nat (int k + (int n - (int (length b) - 1)))) 0
       (filter (\<lambda>k. 0 \<le> int k + (int n - (int (length b) - 1))
                    \<and> int k + (int n - (int (length b) - 1)) < int (length b))
          [0..<length a])"

section \<open>ops.c: normalised correlation of two windows\<close>

text \<open>\<^verbatim>\<open>seq_corr_window_norm\<close>, for any sample arithmetic.  The two operations that HOL
  has for the reals only are parameters: \<open>c_sqrt\<close> is \<^verbatim>\<open>sqrt\<close> of \<^verbatim>\<open>math.h\<close> and \<open>c_double\<close> the
  conversion \<^verbatim>\<open>(double)L\<close>.  The argument \<open>out\<close> tells whether the result pointer is
  non-null; the result is the return value and the value stored through \<^verbatim>\<open>out\<close>.\<close>

function corr_sums ::
  "'a::{zero,plus} seq_window_t option \<Rightarrow> 'a seq_window_t option \<Rightarrow> nat \<Rightarrow> nat \<Rightarrow> nat \<Rightarrow> nat
     \<Rightarrow> 'a \<Rightarrow> 'a \<Rightarrow> ('a \<times> 'a) outcome" where
  "corr_sums wa wb offset_a offset_b L i sum_x sum_y =
     (if i < L then
        (case seq_window_get wa (size_wrap (offset_a + i)) of
           Undefined_Behaviour \<Rightarrow> Undefined_Behaviour
         | Returns xa \<Rightarrow>
             (case seq_window_get wb (size_wrap (offset_b + i)) of
                Undefined_Behaviour \<Rightarrow> Undefined_Behaviour
              | Returns yb \<Rightarrow>
                  corr_sums wa wb offset_a offset_b L (Suc i) (sum_x + xa) (sum_y + yb)))
      else Returns (sum_x, sum_y))"
  by pat_completeness auto
termination
  by (relation "measure (\<lambda>(wa, wb, offset_a, offset_b, L, i, sum_x, sum_y). L - i)") auto

function corr_devs ::
  "'a::{zero,plus,minus,times} seq_window_t option \<Rightarrow> 'a seq_window_t option \<Rightarrow> nat \<Rightarrow> nat \<Rightarrow> nat
     \<Rightarrow> 'a \<Rightarrow> 'a \<Rightarrow> nat \<Rightarrow> 'a \<Rightarrow> 'a \<Rightarrow> 'a \<Rightarrow> ('a \<times> 'a \<times> 'a) outcome" where
  "corr_devs wa wb offset_a offset_b L mx my i num sx2 sy2 =
     (if i < L then
        (case seq_window_get wa (size_wrap (offset_a + i)) of
           Undefined_Behaviour \<Rightarrow> Undefined_Behaviour
         | Returns xa \<Rightarrow>
             (case seq_window_get wb (size_wrap (offset_b + i)) of
                Undefined_Behaviour \<Rightarrow> Undefined_Behaviour
              | Returns yb \<Rightarrow>
                  (let dx = xa - mx; dy = yb - my
                   in corr_devs wa wb offset_a offset_b L mx my (Suc i)
                        (num + dx * dy) (sx2 + dx * dx) (sy2 + dy * dy))))
      else Returns (num, sx2, sy2))"
  by pat_completeness auto
termination
  by (relation "measure (\<lambda>(wa, wb, offset_a, offset_b, L, mx, my, i, num, sx2, sy2). L - i)")
    auto

definition seq_corr_window_norm ::
  "('a \<Rightarrow> 'a) \<Rightarrow> (nat \<Rightarrow> 'a) \<Rightarrow> 'a::{zero,plus,minus,times,inverse,ord} seq_window_t option
     \<Rightarrow> 'a seq_window_t option \<Rightarrow> bool \<Rightarrow> (int \<times> 'a option) outcome"
  where
  "seq_corr_window_norm c_sqrt c_double wa wb out =
     (case (wa, wb) of
        (Some a, Some b) \<Rightarrow>
          if \<not> out then Returns (- 1, None)
          else if w_buf a = None \<or> w_buf b = None \<or> capacity a = 0 \<or> capacity b = 0
            then Returns (- 1, None)
          else
            (let la = count a; lb = count b in
             if la = 0 \<or> lb = 0 then Returns (- 1, None)
             else
               (let L = (if la < lb then la else lb) in
                if L = 0 then Returns (- 1, None)
                else
                  (let offset_a = (if la > L then la - L else 0);
                       offset_b = (if lb > L then lb - L else 0)
                   in (case corr_sums wa wb offset_a offset_b L 0 0 0 of
                         Undefined_Behaviour \<Rightarrow> Undefined_Behaviour
                       | Returns (sum_x, sum_y) \<Rightarrow>
                           (let mx = sum_x / c_double L; my = sum_y / c_double L
                            in (case corr_devs wa wb offset_a offset_b L mx my 0 0 0 0 of
                                  Undefined_Behaviour \<Rightarrow> Undefined_Behaviour
                                | Returns (num, sx2, sy2) \<Rightarrow>
                                    if sx2 \<le> 0 \<or> sy2 \<le> 0 then Returns (- 1, None)
                                    else
                                      (let denom = c_sqrt (sx2 * sy2) in
                                       if denom = 0 then Returns (- 1, None)
                                       else Returns (0, Some (num / denom)))))))))
      | _ \<Rightarrow> Returns (- 1, None))"

declare corr_sums.simps [simp del] corr_devs.simps [simp del]

text \<open>The statistic in the words of the specification.  \<open>window_samples\<close> lists a window
  from its oldest to its newest entry, \<open>recent L\<close> keeps the \<open>L\<close> most recent ones.  In any
  arithmetic, \<open>sum_acc\<close> adds the samples to \<open>0\<close> from the oldest to the newest and
  \<open>dev_acc mx my xs ys\<close> adds the products of the deviations from \<open>mx\<close> and \<open>my\<close> in the same
  order.  In exact arithmetic, \<open>dev_prod xs ys\<close> is the sum of the products of the
  deviations from the means, so that \<open>dev_prod xs xs\<close> is the sum of the squared deviations
  of \<open>xs\<close> (zero exactly when the variance is zero).\<close>

definition window_samples :: "'a seq_window_t \<Rightarrow> 'a list" where
  "window_samples w =
     (case w_buf w of
        None \<Rightarrow> []
      | Some b \<Rightarrow> map (\<lambda>i. b ! ((start w + i) mod capacity w)) [0..<count w])"

definition recent :: "nat \<Rightarrow> 'a seq_window_t \<Rightarrow> 'a list" where
  "recent L w = drop (count w - L) (window_samples w)"



definition mean :: "real list \<Rightarrow> real" where
  "mean xs = (\<Sum>i < length xs. xs ! i) / real (length xs)"

definition dev_prod :: "real list \<Rightarrow> real list \<Rightarrow> real" where
  "dev_prod xs ys = (\<Sum>i < length xs. (xs ! i - mean xs) * (ys ! i - mean ys))"

definition pearson :: "real list \<Rightarrow> real list \<Rightarrow> real" where
  "pearson xs ys = dev_prod xs ys / sqrt (dev_prod xs xs * dev_prod ys ys)"

section \<open>cli.c: driving a stream\<close>

text \<open>The flush loop of \<^verbatim>\<open>cli_run_stream\<close>: steps without input until a step produces no
  output; every output is printed (appended to \<open>outs\<close>).  The caller's \<^verbatim>\<open>y\<close> and
  \<^verbatim>\<open>has_output\<close> are local variables, so both pointers are non-null; printing a \<^verbatim>\<open>y\<close> that
  was never stored would read an uninitialised variable.\<close>

function flush_loop ::
  "'a::{zero,plus,minus} seq_stream_t option \<Rightarrow> 'a list
     \<Rightarrow> (seq_err_t \<times> 'a seq_stream_t option \<times> 'a list) outcome" where
  "flush_loop st outs =
     (case seq_stream_step st False 0 True True of
        Undefined_Behaviour \<Rightarrow> Undefined_Behaviour
      | Returns (rc, st', yv, ho) \<Rightarrow>
          if rc \<noteq> SEQ_OK then Returns (rc, st', outs)
          else if ho \<noteq> Some True then Returns (SEQ_OK, st', outs)
          else (case yv of
                  None \<Rightarrow> Undefined_Behaviour
                | Some v \<Rightarrow> flush_loop st' (outs @ [v])))"
  by pat_completeness auto
termination
proof (relation "measure (\<lambda>(st, outs). case st of None \<Rightarrow> 0 | Some s \<Rightarrow> remaining s)")
  show "wf (measure (\<lambda>(st :: 'a seq_stream_t option, outs :: 'a list).
              case st of None \<Rightarrow> 0 | Some s \<Rightarrow> remaining s))"
    by simp
next
  fix st :: "'a seq_stream_t option" and outs :: "'a list" and r rc p st' q yv ho v
  assume "seq_stream_step st False 0 True True = Returns r" "(rc, p) = r" "(st', q) = p"
    "(yv, ho) = q" "\<not> rc \<noteq> SEQ_OK" "\<not> ho \<noteq> Some True" "yv = Some v"
  then have "seq_stream_step st False 0 True True = Returns (SEQ_OK, st', Some v, Some True)"
    by auto
  then show "((st', outs @ [v]), st, outs)
             \<in> measure (\<lambda>(st, outs). case st of None \<Rightarrow> 0 | Some s \<Rightarrow> remaining s)"
    by (auto simp: seq_stream_step_def split: option.splits if_splits seq_op_type.splits)
qed

text \<open>The token loop of \<^verbatim>\<open>cli_run_stream\<close>: one step with the sample, its output printed,
  then a flush loop.  The tokens are the parsed samples up to \<^verbatim>\<open>END\<close>.\<close>

fun stream_tokens ::
  "'a::{zero,plus,minus} seq_stream_t option \<Rightarrow> 'a list \<Rightarrow> 'a list \<Rightarrow> (int \<times> 'a list) outcome" where
  "stream_tokens st [] outs = Returns (0, outs)"
| "stream_tokens st (x # xs) outs =
     (case seq_stream_step st True x True True of
        Undefined_Behaviour \<Rightarrow> Undefined_Behaviour
      | Returns (rc, st', yv, ho) \<Rightarrow>
          if rc \<noteq> SEQ_OK then Returns (1, outs)
          else
            (case (if ho = Some True
                   then (case yv of None \<Rightarrow> None | Some v \<Rightarrow> Some (outs @ [v]))
                   else Some outs) of
               None \<Rightarrow> Undefined_Behaviour
             | Some outs1 \<Rightarrow>
                 (case flush_loop st' outs1 of
                    Undefined_Behaviour \<Rightarrow> Undefined_Behaviour
                  | Returns (rc2, st2, outs2) \<Rightarrow>
                      if rc2 \<noteq> SEQ_OK then Returns (1, outs2)
                      else stream_tokens st2 xs outs2)))"

text \<open>\<^verbatim>\<open>cli_run_stream\<close>: the return value and the samples printed.  \<open>st0\<close> is the
  (indeterminate) content of the local state variable before \<^verbatim>\<open>seq_stream_init\<close>.\<close>

definition cli_run_stream ::
  "(nat \<Rightarrow> bool) \<Rightarrow> 'a::{zero,plus,minus} seq_stream_t \<Rightarrow> seq_op_type \<Rightarrow> nat \<Rightarrow> 'a \<Rightarrow> 'a list
     \<Rightarrow> (int \<times> 'a list) outcome" where
  "cli_run_stream mem st0 opr pm fl tokens =
     (if \<not> seq_online_capable opr True then Returns (1, [])
      else
        (case seq_stream_init mem (Some st0) opr pm 0 fl of
           Undefined_Behaviour \<Rightarrow> Undefined_Behaviour
         | Returns (rc, st) \<Rightarrow>
             if rc \<noteq> SEQ_OK then Returns (1, [])
             else
               (case flush_loop st [] of
                  Undefined_Behaviour \<Rightarrow> Undefined_Behaviour
                | Returns (rc1, st1, outs1) \<Rightarrow>
                    if rc1 \<noteq> SEQ_OK then Returns (1, outs1)
                    else stream_tokens st1 tokens outs1)))"

text \<open>The procedure in the words of the specification: every sample is fed with
  \<^verbatim>\<open>has_input = 1\<close>, one step each, and only then the stream is flushed until a step
  produces no output.  The first error code ends the run.\<close>

fun spec_feed ::
  "'a::{zero,plus,minus} seq_stream_t option \<Rightarrow> 'a list \<Rightarrow> 'a list
     \<Rightarrow> (seq_err_t \<times> 'a seq_stream_t option \<times> 'a list) outcome" where
  "spec_feed st [] outs = Returns (SEQ_OK, st, outs)"
| "spec_feed st (x # xs) outs =
     (case seq_stream_step st True x True True of
        Undefined_Behaviour \<Rightarrow> Undefined_Behaviour
      | Returns (rc, st', yv, ho) \<Rightarrow>
          if rc \<noteq> SEQ_OK then Returns (rc, st', outs)
          else
            (case (if ho = Some True
                   then (case yv of None \<Rightarrow> None | Some v \<Rightarrow> Some (outs @ [v]))
                   else Some outs) of
               None \<Rightarrow> Undefined_Behaviour
             | Some outs1 \<Rightarrow> spec_feed st' xs outs1))"

definition spec_feed_then_flush ::
  "(nat \<Rightarrow> bool) \<Rightarrow> 'a::{zero,plus,minus} seq_stream_t \<Rightarrow> seq_op_type \<Rightarrow> nat \<Rightarrow> 'a \<Rightarrow> 'a list
     \<Rightarrow> (seq_err_t \<times> 'a list) outcome" where
  "spec_feed_then_flush mem st0 opr pm fl xs =
     (case seq_stream_init mem (Some st0) opr pm 0 fl of
        Undefined_Behaviour \<Rightarrow> Undefined_Behaviour
      | Returns (rc, st) \<Rightarrow>
          if rc \<noteq> SEQ_OK then Returns (rc, [])
          else
            (case spec_feed st xs [] of
               Undefined_Behaviour \<Rightarrow> Undefined_Behaviour
             | Returns (rc1, st1, outs1) \<Rightarrow>
                 if rc1 \<noteq> SEQ_OK then Returns (rc1, outs1)
                 else
                   (case flush_loop st1 outs1 of
                      Undefined_Behaviour \<Rightarrow> Undefined_Behaviour
                    | Returns (rc2, st2, outs2) \<Rightarrow> Returns (rc2, outs2))))"

declare flush_loop.simps [simp del]

text \<open>The samples a downsampling stream with counter \<open>c\<close> lets through.\<close>

fun ds_from :: "nat \<Rightarrow> nat \<Rightarrow> 'a list \<Rightarrow> 'a list" where
  "ds_from f c [] = []"
| "ds_from f c (x # xs) = (if c mod f = 0 then [x] else []) @ ds_from f (Suc c) xs"

section \<open>Double arithmetic\<close>

text \<open>The operators above are written for any sample type.  The arithmetic the program
  runs on is IEEE-754 binary64, every operation rounded to nearest, ties to even.  Every
  finite double is an integer multiple of \<open>2 ^ - 1074\<close>, the smallest positive one, and
  \<open>Double k\<close> stands for \<open>k * 2 ^ - 1074\<close>; the integers \<open>k\<close> that are doubles are those
  with at most 53 significant bits and magnitude below \<open>2 ^ 2098\<close> (the double
  \<open>2 ^ 1024\<close>).  Overflow to infinity, NaN, division by zero and the sign of zero are not
  modelled; they are not met in what follows.

  \<open>double_shift m 0\<close> is the number of low bits that a magnitude \<open>m\<close> loses to fit 53
  significant bits, and \<open>round_ratio n d\<close> rounds the exact quotient \<open>n / d\<close> (in units of
  \<open>2 ^ - 1074\<close>) to the nearest double.  \<open>dyadic m e\<close> is the double \<open>m * 2 ^ e\<close>.\<close>

function double_shift :: "nat \<Rightarrow> nat \<Rightarrow> nat" where
  "double_shift m k = (if m div 2 ^ k < 2 ^ 53 then k else double_shift m (k + 1))"
  by pat_completeness auto
termination
proof (relation "measure (\<lambda>(m, k). m div 2 ^ k)")
  show "wf (measure (\<lambda>(m :: nat, k :: nat). m div 2 ^ k))" by simp
next
  fix m k :: nat
  assume a: "\<not> m div 2 ^ k < 2 ^ 53"
  have "m div 2 ^ (k + 1) = m div (2 ^ k * 2)" by (simp add: mult.commute)
  then have "m div 2 ^ (k + 1) = m div 2 ^ k div 2"
    by (simp only: div_mult2_eq)
  moreover have "0 < m div 2 ^ k" using a by (cases "m div 2 ^ k") simp_all
  ultimately have "m div 2 ^ (k + 1) < m div 2 ^ k" by simp
  then show "((m, k + 1), m, k) \<in> measure (\<lambda>(m, k). m div 2 ^ k)" by simp
qed

declare double_shift.simps [simp del]

definition round_ratio :: "int \<Rightarrow> nat \<Rightarrow> int" where
  "round_ratio n d =
     (let m = nat \<bar>n\<bar>; k = double_shift (m div d) 0;
          q = m div (d * 2 ^ k); r = m mod (d * 2 ^ k);
          q' = (if 2 * r > d * 2 ^ k \<or> (2 * r = d * 2 ^ k \<and> odd q) then q + 1 else q)
      in sgn n * int (q' * 2 ^ k))"

datatype double = Double int

definition dyadic :: "int \<Rightarrow> int \<Rightarrow> double" where
  "dyadic m e = Double (m * 2 ^ nat (e + 1074))"

instantiation double :: "{zero,plus,minus,times,inverse,ord}"
begin

definition zero_double :: double where
  "zero_double = Double 0"

fun plus_double :: "double \<Rightarrow> double \<Rightarrow> double" where
  "plus_double (Double a) (Double b) = Double (round_ratio (a + b) 1)"

fun minus_double :: "double \<Rightarrow> double \<Rightarrow> double" where
  "minus_double (Double a) (Double b) = Double (round_ratio (a - b) 1)"

fun times_double :: "double \<Rightarrow> double \<Rightarrow> double" where
  "times_double (Double a) (Double b) = Double (round_ratio (a * b) (2 ^ 1074))"

fun divide_double :: "double \<Rightarrow> double \<Rightarrow> double" where
  "divide_double (Double a) (Double b) = Double (round_ratio (a * sgn b * 2 ^ 1074) (nat \<bar>b\<bar>))"

fun inverse_double :: "double \<Rightarrow> double" where
  "inverse_double (Double b) = Double (round_ratio (2 ^ 1074 * sgn b * 2 ^ 1074) (nat \<bar>b\<bar>))"

fun less_eq_double :: "double \<Rightarrow> double \<Rightarrow> bool" where
  "less_eq_double (Double a) (Double b) \<longleftrightarrow> a \<le> b"

fun less_double :: "double \<Rightarrow> double \<Rightarrow> bool" where
  "less_double (Double a) (Double b) \<longleftrightarrow> a < b"

instance ..

end





text \<open>A list of doubles, given by their integers, whose running sums from \<open>a\<close>
  (\<open>sums_exact\<close>) or whose successive differences after \<open>p\<close> (\<open>diffs_exact\<close>) are doubles
  again, so that \<^verbatim>\<open>seq_cumsum\<close> or \<^verbatim>\<open>seq_diff\<close> rounds nowhere.\<close>

definition is_double :: "int \<Rightarrow> bool" where
  "is_double k \<longleftrightarrow> round_ratio k 1 = k \<and> \<bar>k\<bar> < 2 ^ 2098"

fun sums_exact :: "int \<Rightarrow> int list \<Rightarrow> bool" where
  "sums_exact a [] = True"
| "sums_exact a (k # ks) = (is_double (a + k) \<and> sums_exact (a + k) ks)"

fun diffs_exact :: "int \<Rightarrow> int list \<Rightarrow> bool" where
  "diffs_exact p [] = True"
| "diffs_exact p (k # ks) = (is_double (k - p) \<and> diffs_exact k ks)"

definition diff_exact :: "int list \<Rightarrow> bool" where
  "diff_exact ks = (case ks of [] \<Rightarrow> True | k # r \<Rightarrow> diffs_exact k r)"

section \<open>Basic facts\<close>

lemma size_wrap_id: "n < 2 ^ 64 \<Longrightarrow> size_wrap n = n"
  by (simp add: size_wrap_def)

lemma take_Suc_update: "n < length ys \<Longrightarrow> take (Suc n) (ys[n := v]) = take n ys @ [v]"
  by (simp add: take_Suc_conv_app_nth)

lemma replicate_num: "replicate (numeral k) x = x # replicate (pred_numeral k) x"
  by (simp add: numeral_eq_Suc)

lemma to_long_id: "n < 2 ^ 63 \<Longrightarrow> to_long n = int n"
  by (simp add: to_long_def)

lemma to_size_id: "0 \<le> l \<Longrightarrow> l < 2 ^ 64 \<Longrightarrow> to_size l = nat l"
  by (simp add: to_size_def)

lemmas ops_eval =
  seq_init_def size_wrap_def rd_def wr_def size_sub_def to_long_def to_size_def Let_def
  replicate_num

section \<open>Results on the classifier and on stream construction\<close>

text \<open>
  Claim C3.  With a non-zero \<^verbatim>\<open>infinite_input\<close> the classifier accepts exactly pad-front,
  delay, upsample, downsample, diff and cumsum and rejects pad-back, advance and reverse;
  with \<^verbatim>\<open>infinite_input == 0\<close> it accepts all nine operators.  On a non-null state
  object \<^verbatim>\<open>seq_stream_init\<close> answers \<^verbatim>\<open>SEQ_ERR_UNSUPPORTED\<close> exactly for the operators
  the classifier rejects for unbounded input, and then the state is left inactive.
\<close>

theorem C3_online_capable_and_init:
  fixes s0 :: "'a::zero seq_stream_t"
  shows "(seq_online_capable opr True \<longleftrightarrow>
            opr \<in> {SEQ_OP_PAD_FRONT, SEQ_OP_DELAY, SEQ_OP_UPSAMPLE, SEQ_OP_DOWNSAMPLE,
                   SEQ_OP_DIFF, SEQ_OP_CUMSUM})
       \<and> (\<not> seq_online_capable opr True \<longleftrightarrow>
            opr \<in> {SEQ_OP_PAD_BACK, SEQ_OP_ADVANCE, SEQ_OP_REVERSE})
       \<and> seq_online_capable opr False
       \<and> ((\<exists>st'. seq_stream_init mem (Some s0) opr pm pa fl
                    = Returns (SEQ_ERR_UNSUPPORTED, st'))
            \<longleftrightarrow> \<not> seq_online_capable opr True)
       \<and> (\<not> seq_online_capable opr True \<longrightarrow>
            (\<exists>s'. seq_stream_init mem (Some s0) opr pm pa fl
                    = Returns (SEQ_ERR_UNSUPPORTED, Some s') \<and> \<not> active s'))"
  by (cases opr)
    (auto simp: seq_stream_init_def seq_stream_reset_def Let_def split: option.splits)

theorem C3_witness:
  "\<not> seq_online_capable SEQ_OP_REVERSE True
   \<and> seq_online_capable SEQ_OP_REVERSE False
   \<and> (\<exists>s'. seq_stream_init (\<lambda>n. True)
            (Some (\<lparr>active = True, op = SEQ_OP_DIFF, param_main = 3, param_aux = 0,
                    fill = 0, buf = [], buf_size = 0, buf_head = 0, counter = 0,
                    remaining = 0, last_x = 0, has_last = False, acc = (0::int)\<rparr>))
            SEQ_OP_REVERSE 2 0 0 = Returns (SEQ_ERR_UNSUPPORTED, Some s') \<and> \<not> active s')"
  using C3_online_capable_and_init
    [of SEQ_OP_REVERSE "\<lambda>n. True"
        "\<lparr>active = True, op = SEQ_OP_DIFF, param_main = 3, param_aux = 0,
          fill = 0, buf = [], buf_size = 0, buf_head = 0, counter = 0,
          remaining = 0, last_x = 0, has_last = False, acc = (0::int)\<rparr>" 2 0 0]
  by simp

section \<open>Errors of a streaming step\<close>

text \<open>
  Claim C9.  Whenever \<^verbatim>\<open>seq_stream_step\<close> returns an error code, the state object is
  exactly as it was before the call (every field, the buffer contents included), nothing
  is stored through \<^verbatim>\<open>y\<close> and no output is signalled.
\<close>

theorem C9_step_error_preserves_state:
  assumes "seq_stream_step st has_input x y has_output = Returns (rc, st', yv, ho)"
      and "rc \<noteq> SEQ_OK"
  shows "st' = st \<and> yv = None \<and> ho \<noteq> Some True"
  using assms
  by (auto simp: seq_stream_step_def Let_def split: option.splits if_splits seq_op_type.splits)

theorem C9_witness:
  "seq_stream_step
     (Some \<lparr>active = True, op = SEQ_OP_PAD_FRONT, param_main = 2, param_aux = 0,
            fill = 0, buf = [], buf_size = 0, buf_head = 0, counter = 0,
            remaining = 2, last_x = 0, has_last = False, acc = (0::int)\<rparr>) True 5 True True
   = Returns (SEQ_ERR_STATE,
       Some \<lparr>active = True, op = SEQ_OP_PAD_FRONT, param_main = 2, param_aux = 0,
              fill = 0, buf = [], buf_size = 0, buf_head = 0, counter = 0,
              remaining = 2, last_x = 0, has_last = False, acc = (0::int)\<rparr>, None, Some False)
   \<and> SEQ_ERR_STATE \<noteq> SEQ_OK"
proof -
  let ?s = "\<lparr>active = True, op = SEQ_OP_PAD_FRONT, param_main = 2, param_aux = 0,
            fill = 0, buf = [], buf_size = 0, buf_head = 0, counter = 0,
            remaining = 2, last_x = 0, has_last = False, acc = (0::int)\<rparr>"
  have run: "seq_stream_step (Some ?s) True 5 True True
             = Returns (SEQ_ERR_STATE, Some ?s, None, Some False)"
    by (simp add: seq_stream_step_def)
  have ne: "SEQ_ERR_STATE \<noteq> SEQ_OK" by simp
  from C9_step_error_preserves_state [OF run ne] run ne show ?thesis by simp
qed

section \<open>The batch operators in closed form\<close>

lemma seq_prepare_output_ok:
  assumes "mem n"
  shows "\<exists>d'. seq_prepare_output mem (Some d) n = (SEQ_OK, Some d') \<and> length d' = n"
  using assms by (auto simp: seq_prepare_output_def seq_alloc_def seq_free_def)

lemma pad_front_zeros_eq:
  assumes "zeros \<le> length d" "i \<le> zeros"
  shows "pad_front_zeros zeros i d
         = Some (zeros, take i d @ replicate (zeros - i) 0 @ drop zeros d)"
  using assms
proof (induction zeros i d rule: pad_front_zeros.induct)
  case (1 zeros i d)
  show ?case
  proof (cases "i < zeros")
    case True
    have w: "wr d i 0 = Some (d[i := 0])" using True "1.prems" by (simp add: wr_def)
    have "pad_front_zeros zeros (Suc i) (d[i := 0])
          = Some (zeros, take (Suc i) (d[i := 0]) @ replicate (zeros - Suc i) 0
                         @ drop zeros (d[i := 0]))"
      using True "1.prems" by (intro "1.IH"[OF True w]) simp_all
    moreover have "replicate (zeros - i) (0::'a) = 0 # replicate (zeros - Suc i) 0"
    proof -
      have "zeros - i = Suc (zeros - Suc i)" using True by simp
      then show ?thesis by (simp only: replicate_Suc)
    qed
    ultimately show ?thesis
      using True w "1.prems"
      by (subst pad_front_zeros.simps) (simp add: take_Suc_update)
  next
    case False
    with "1.prems" show ?thesis
      by (subst pad_front_zeros.simps) simp
  qed
qed

lemma pad_front_copy_eq:
  assumes "length d = i + (length s - j)" "j \<le> length s"
  shows "pad_front_copy s i j d = Some (take i d @ drop j s)"
  using assms
proof (induction s i j d rule: pad_front_copy.induct)
  case (1 s i j d)
  show ?case
  proof (cases "j < length s")
    case True
    have r: "rd s j = Some (s ! j)" using True by (simp add: rd_def)
    have w: "wr d i (s ! j) = Some (d[i := s ! j])"
      using True "1.prems" by (simp add: wr_def)
    have "pad_front_copy s (Suc i) (Suc j) (d[i := s ! j])
          = Some (take (Suc i) (d[i := s ! j]) @ drop (Suc j) s)"
      using True "1.prems" by (intro "1.IH"[OF True r w]) simp_all
    then show ?thesis
      using True r w "1.prems"
      by (subst pad_front_copy.simps) (simp add: take_Suc_update Cons_nth_drop_Suc)
  next
    case False
    with "1.prems" show ?thesis
      by (subst pad_front_copy.simps) simp
  qed
qed

lemma seq_pad_front_eq:
  assumes "length s + zeros < 2 ^ 64" "mem (length s + zeros)"
  shows "seq_pad_front mem (Some s) zeros (Some d) = Returns (SEQ_OK, Some (replicate zeros 0 @ s))"
proof -
  have ow: "size_wrap (length s + zeros) = length s + zeros"
    using assms(1) by (rule size_wrap_id)
  obtain d' where prep: "seq_prepare_output mem (Some d) (length s + zeros) = (SEQ_OK, Some d')"
    and len: "length d' = length s + zeros"
    using seq_prepare_output_ok[of mem "length s + zeros" d] assms(2) by blast
  have z: "pad_front_zeros zeros 0 d' = Some (zeros, replicate zeros 0 @ drop zeros d')"
    using len by (subst pad_front_zeros_eq) simp_all
  have c: "pad_front_copy s zeros 0 (replicate zeros 0 @ drop zeros d')
           = Some (replicate zeros 0 @ s)"
    using len by (subst pad_front_copy_eq) simp_all
  show ?thesis
    by (simp add: seq_pad_front_def ow prep z c)
qed

lemma delay_loop_eq:
  assumes "length d = length s" "i \<le> length s"
  shows "delay_loop s delay fl i d
         = Some (take i d @ map (\<lambda>k. if k < delay then fl else s ! (k - delay)) [i..<length s])"
  using assms
proof (induction s delay fl i d rule: delay_loop.induct)
  case (1 s delay fl i d)
  let ?f = "\<lambda>k. if k < delay then fl else s ! (k - delay)"
  show ?case
  proof (cases "i < length s")
    case True
    have w: "wr d i (?f i) = Some (d[i := ?f i])" using True "1.prems" by (simp add: wr_def)
    have r: "\<not> i < delay \<Longrightarrow> rd s (i - delay) = Some (s ! (i - delay))"
      using True by (simp add: rd_def)
    have ih: "delay_loop s delay fl (Suc i) (d[i := ?f i])
          = Some (take (Suc i) (d[i := ?f i]) @ map ?f [Suc i..<length s])"
    proof (cases "i < delay")
      case lt: True
      then have w': "wr d i fl = Some (d[i := ?f i])" using w by simp
      show ?thesis using True "1.prems" by (intro "1.IH"(1)[OF True lt w']) simp_all
    next
      case ge: False
      then have w': "wr d i (s ! (i - delay)) = Some (d[i := ?f i])" using w by simp
      show ?thesis using True "1.prems" by (intro "1.IH"(2)[OF True ge r[OF ge] w']) simp_all
    qed
    show ?thesis
    proof (cases "i < delay")
      case lt: True
      then show ?thesis
        using True w ih "1.prems"
        by (subst delay_loop.simps) (simp add: take_Suc_update upt_conv_Cons)
    next
      case ge: False
      then show ?thesis
        using True w r[OF ge] ih "1.prems"
        by (subst delay_loop.simps) (simp add: take_Suc_update upt_conv_Cons)
    qed
  next
    case False
    with "1.prems" show ?thesis
      by (subst delay_loop.simps) simp
  qed
qed

lemma delay_list_map:
  "map (\<lambda>k. if k < delay then fl else s ! (k - delay)) [0..<length s] = delay_list delay fl s"
  by (rule nth_equalityI) (auto simp: delay_list_def nth_append)

lemma seq_delay_eq:
  assumes "mem (length s)"
  shows "seq_delay mem (Some s) delay fl (Some d) = Returns (SEQ_OK, Some (delay_list delay fl s))"
proof -
  obtain d' where prep: "seq_prepare_output mem (Some d) (length s) = (SEQ_OK, Some d')"
    and len: "length d' = length s"
    using seq_prepare_output_ok[of mem "length s" d] assms by blast
  have "delay_loop s delay fl 0 d' = Some (delay_list delay fl s)"
    using len by (subst delay_loop_eq) (simp_all add: delay_list_map)
  then show ?thesis
    by (simp add: seq_delay_def prep)
qed

lemma upsample_zero_eq:
  assumes "length d = out_len" "n \<le> out_len"
  shows "upsample_zero out_len n d = Some (take n d @ replicate (out_len - n) 0)"
  using assms
proof (induction out_len n d rule: upsample_zero.induct)
  case (1 out_len n d)
  show ?case
  proof (cases "n < out_len")
    case True
    have w: "wr d n 0 = Some (d[n := 0])" using True "1.prems" by (simp add: wr_def)
    have "upsample_zero out_len (Suc n) (d[n := 0])
          = Some (take (Suc n) (d[n := 0]) @ replicate (out_len - Suc n) 0)"
      using True "1.prems" by (intro "1.IH"[OF True w]) simp_all
    moreover have "replicate (out_len - n) (0::'a) = 0 # replicate (out_len - Suc n) 0"
    proof -
      have "out_len - n = Suc (out_len - Suc n)" using True by simp
      then show ?thesis by (simp only: replicate_Suc)
    qed
    ultimately show ?thesis
      using True w "1.prems"
      by (subst upsample_zero.simps) (simp add: take_Suc_update)
  next
    case False
    with "1.prems" show ?thesis
      by (subst upsample_zero.simps) simp
  qed
qed

lemma upsample_place_eq:
  assumes "0 < f" "length s * f < 2 ^ 64" "i \<le> length s" "length A = i * f"
    "d = A @ replicate ((length s - i) * f) 0"
  shows "upsample_place s f i d = Some (A @ upsample_list f (drop i s))"
  using assms
proof (induction s f i d arbitrary: A rule: upsample_place.induct)
  case (1 s f i d)
  show ?case
  proof (cases "i < length s")
    case True
    let ?A' = "A @ s ! i # replicate (f - 1) 0"
    let ?d' = "?A' @ replicate ((length s - Suc i) * f) 0"
    have r: "rd s i = Some (s ! i)" using True by (simp add: rd_def)
    have "i * f \<le> length s * f" using True by (intro mult_le_mono1) simp
    then have "i * f < 2 ^ 64" using "1.prems"(2) by (rule le_less_trans)
    then have iw: "size_wrap (i * f) = i * f" by (rule size_wrap_id)
    have split: "replicate ((length s - i) * f) (0::'a)
                 = 0 # replicate (f - 1) 0 @ replicate ((length s - Suc i) * f) 0"
    proof -
      obtain m where m: "length s - i = Suc m" "length s - Suc i = m"
        using True by (metis Suc_diff_Suc)
      obtain f' where f': "f = Suc f'"
        using "1.prems"(1) by (cases f) simp_all
      have "(length s - i) * f = Suc ((f - 1) + (length s - Suc i) * f)"
        unfolding m f' by simp
      then show ?thesis by (simp add: replicate_add)
    qed
    have w: "wr d (size_wrap (i * f)) (s ! i) = Some ?d'"
      using "1.prems"(4,5) iw split by (simp add: wr_def list_update_append)
    have "upsample_place s f (Suc i) ?d' = Some (?A' @ upsample_list f (drop (Suc i) s))"
      using True "1.prems"(1,2,4)
      by (intro "1.IH"[OF True r w]) (simp_all add: Suc_diff_Suc)
    moreover have "upsample_list f (drop i s)
                   = s ! i # replicate (f - 1) 0 @ upsample_list f (drop (Suc i) s)"
      using True by (simp add: upsample_list_def Cons_nth_drop_Suc[symmetric])
    ultimately show ?thesis
      using True r w
      by (subst upsample_place.simps) simp
  next
    case False
    with "1.prems" show ?thesis
      by (subst upsample_place.simps) (simp add: upsample_list_def)
  qed
qed

lemma seq_upsample_eq:
  assumes "0 < f" "length s * f < 2 ^ 64" "mem (length s * f)"
  shows "seq_upsample mem (Some s) f (Some d) = Returns (SEQ_OK, Some (upsample_list f s))"
proof -
  have ow: "size_wrap (length s * f) = length s * f"
    using assms(2) by (rule size_wrap_id)
  obtain d' where prep: "seq_prepare_output mem (Some d) (length s * f) = (SEQ_OK, Some d')"
    and len: "length d' = length s * f"
    using seq_prepare_output_ok[of mem "length s * f" d] assms(3) by blast
  have z: "upsample_zero (length s * f) 0 d' = Some (replicate (length s * f) 0)"
    using len by (subst upsample_zero_eq) simp_all
  have p: "upsample_place s f 0 (replicate (length s * f) 0) = Some (upsample_list f s)"
    using assms(1,2) upsample_place_eq[of f s 0 "[]" "replicate (length s * f) 0"] by simp
  show ?thesis
    using assms(1) by (simp add: seq_upsample_def ow prep z p)
qed

lemma downsample_loop_eq:
  assumes "0 < f" "length s < 2 ^ 64" "out_len = length s div f" "length d = out_len"
    "i \<le> out_len"
  shows "downsample_loop s f out_len i d
         = Some (take i d @ map (\<lambda>k. s ! (k * f)) [i..<out_len])"
  using assms
proof (induction s f out_len i d rule: downsample_loop.induct)
  case (1 s f out_len i d)
  show ?case
  proof (cases "i < out_len")
    case True
    have "Suc i * f \<le> length s div f * f" using True "1.prems"(3) by (intro mult_le_mono1) simp
    then have "Suc i * f \<le> length s" by (meson div_times_less_eq_dividend le_trans)
    then have lt: "i * f < length s" using "1.prems"(1) by simp
    then have "i * f < 2 ^ 64" using "1.prems"(2) by (rule less_trans)
    then have iw: "size_wrap (i * f) = i * f" by (rule size_wrap_id)
    have r: "rd s (size_wrap (i * f)) = Some (s ! (i * f))" using lt iw by (simp add: rd_def)
    have w: "wr d i (s ! (i * f)) = Some (d[i := s ! (i * f)])"
      using True "1.prems" by (simp add: wr_def)
    have "downsample_loop s f out_len (Suc i) (d[i := s ! (i * f)])
          = Some (take (Suc i) (d[i := s ! (i * f)]) @ map (\<lambda>k. s ! (k * f)) [Suc i..<out_len])"
      using True "1.prems" by (intro "1.IH"[OF True r w]) simp_all
    then show ?thesis
      using True r w "1.prems"
      by (subst downsample_loop.simps) (simp add: take_Suc_update upt_conv_Cons)
  next
    case False
    with "1.prems" show ?thesis
      by (subst downsample_loop.simps) simp
  qed
qed

lemma seq_downsample_eq:
  assumes "0 < f" "length s < 2 ^ 64" "mem (length s div f)"
  shows "seq_downsample mem (Some s) f (Some d) = Returns (SEQ_OK, Some (downsample_list f s))"
proof -
  obtain d' where prep: "seq_prepare_output mem (Some d) (length s div f) = (SEQ_OK, Some d')"
    and len: "length d' = length s div f"
    using seq_prepare_output_ok[of mem "length s div f" d] assms(3) by blast
  have "downsample_loop s f (length s div f) 0 d' = Some (downsample_list f s)"
    using assms(1,2) len by (subst downsample_loop_eq) (simp_all add: downsample_list_def)
  then show ?thesis
    using assms(1) by (simp add: seq_downsample_def prep)
qed

lemma diff_loop_eq:
  assumes "length d = length s" "0 < i" "i \<le> length s"
  shows "diff_loop s i d = Some (take i d @ diffs (s ! (i - 1)) (drop i s))"
  using assms
proof (induction s i d rule: diff_loop.induct)
  case (1 s i d)
  show ?case
  proof (cases "i < length s")
    case True
    have r: "rd s i = Some (s ! i)" using True by (simp add: rd_def)
    have r': "rd s (i - 1) = Some (s ! (i - 1))" using True by (simp add: rd_def)
    have w: "wr d i (s ! i - s ! (i - 1)) = Some (d[i := s ! i - s ! (i - 1)])"
      using True "1.prems" by (simp add: wr_def)
    have "diff_loop s (Suc i) (d[i := s ! i - s ! (i - 1)])
          = Some (take (Suc i) (d[i := s ! i - s ! (i - 1)])
                  @ diffs (s ! (Suc i - 1)) (drop (Suc i) s))"
      using True "1.prems" by (intro "1.IH"[OF True r r' w]) simp_all
    moreover have "diffs (s ! (i - 1)) (drop i s)
                   = (s ! i - s ! (i - 1)) # diffs (s ! i) (drop (Suc i) s)"
      using True by (simp add: Cons_nth_drop_Suc[symmetric])
    ultimately show ?thesis
      using True r r' w "1.prems"
      by (subst diff_loop.simps) (simp add: take_Suc_update)
  next
    case False
    with "1.prems" show ?thesis
      by (subst diff_loop.simps) simp
  qed
qed

lemma seq_diff_eq:
  assumes "mem (length s)"
  shows "seq_diff mem (Some s) (Some d) = Returns (SEQ_OK, Some (diff_list s))"
proof -
  obtain d' where prep: "seq_prepare_output mem (Some d) (length s) = (SEQ_OK, Some d')"
    and len: "length d' = length s"
    using seq_prepare_output_ok[of mem "length s" d] assms by blast
  show ?thesis
  proof (cases s)
    case Nil
    then show ?thesis using prep len by (simp add: seq_diff_def diff_list_def)
  next
    case (Cons x xs)
    have r: "rd s 0 = Some x" using Cons by (simp add: rd_def)
    have w: "wr d' 0 x = Some (d'[0 := x])" using Cons len by (simp add: wr_def)
    have "diff_loop s 1 (d'[0 := x]) = Some (take 1 (d'[0 := x]) @ diffs (s ! (1 - 1)) (drop 1 s))"
      using Cons len by (intro diff_loop_eq) simp_all
    moreover have "take 1 (d'[0 := x]) = [x]" using Cons len by (cases d') simp_all
    ultimately have "diff_loop s 1 (d'[0 := x]) = Some (diff_list s)"
      using Cons by (simp add: diff_list_def)
    then show ?thesis
      using Cons r w by (simp add: seq_diff_def prep[unfolded Cons, simplified])
  qed
qed

lemma cumsum_loop_eq:
  assumes "length d = length s" "i \<le> length s"
  shows "cumsum_loop s ac i d = Some (take i d @ cums ac (drop i s))"
  using assms
proof (induction s ac i d rule: cumsum_loop.induct)
  case (1 s ac i d)
  show ?case
  proof (cases "i < length s")
    case True
    have r: "rd s i = Some (s ! i)" using True by (simp add: rd_def)
    have w: "wr d i (ac + s ! i) = Some (d[i := ac + s ! i])"
      using True "1.prems" by (simp add: wr_def)
    have "cumsum_loop s (ac + s ! i) (Suc i) (d[i := ac + s ! i])
          = Some (take (Suc i) (d[i := ac + s ! i]) @ cums (ac + s ! i) (drop (Suc i) s))"
      using True "1.prems" by (intro "1.IH"[OF True r w]) simp_all
    moreover have "cums ac (drop i s) = (ac + s ! i) # cums (ac + s ! i) (drop (Suc i) s)"
      using True by (simp add: Cons_nth_drop_Suc[symmetric])
    ultimately show ?thesis
      using True r w "1.prems"
      by (subst cumsum_loop.simps) (simp add: take_Suc_update)
  next
    case False
    with "1.prems" show ?thesis
      by (subst cumsum_loop.simps) simp
  qed
qed

lemma seq_cumsum_eq:
  assumes "mem (length s)"
  shows "seq_cumsum mem (Some s) (Some d) = Returns (SEQ_OK, Some (cums 0 s))"
proof -
  obtain d' where prep: "seq_prepare_output mem (Some d) (length s) = (SEQ_OK, Some d')"
    and len: "length d' = length s"
    using seq_prepare_output_ok[of mem "length s" d] assms by blast
  have "cumsum_loop s 0 0 d' = Some (cums 0 s)"
    using len by (subst cumsum_loop_eq) simp_all
  then show ?thesis
    by (simp add: seq_cumsum_def prep)
qed

lemma length_cums [simp]: "length (cums a xs) = length xs"
  by (induction xs arbitrary: a) simp_all

lemma length_diff_list [simp]: "length (diff_list xs) = length xs"
proof -
  have "length (diffs p ys) = length ys" for p :: 'a and ys
    by (induction ys arbitrary: p) simp_all
  then show ?thesis by (simp add: diff_list_def split: list.splits)
qed

lemma length_upsample_list [simp]: "length (upsample_list f xs) = length xs * f" if "0 < f"
  using that by (induction xs) (simp_all add: upsample_list_def)

section \<open>Round trips of the batch operators\<close>

lemma upsample_list_Cons:
  "upsample_list f (x # xs) = (x # replicate (f - 1) 0) @ upsample_list f xs"
  by (simp add: upsample_list_def)

lemma upsample_list_nth:
  assumes "0 < f" "i < length xs"
  shows "upsample_list f xs ! (i * f) = xs ! i"
  using assms(2)
proof (induction xs arbitrary: i)
  case Nil
  then show ?case by simp
next
  case (Cons x xs)
  show ?case
  proof (cases i)
    case 0
    then show ?thesis by (simp add: upsample_list_Cons)
  next
    case (Suc j)
    have len: "length (x # replicate (f - 1) (0::'a)) = f" using assms(1) by simp
    have "upsample_list f (x # xs) ! (Suc j * f)
          = ((x # replicate (f - 1) 0) @ upsample_list f xs) ! (f + j * f)"
      by (simp add: upsample_list_Cons)
    also have "\<dots> = upsample_list f xs ! (j * f)"
      using len by (metis nth_append_length_plus)
    also have "\<dots> = xs ! j" using Cons Suc by simp
    finally show ?thesis using Suc by simp
  qed
qed

lemma downsample_upsample_list:
  assumes "0 < f"
  shows "downsample_list f (upsample_list f xs) = xs"
  using assms
  by (intro nth_equalityI) (simp_all add: downsample_list_def upsample_list_nth)

text \<open>
  Claim C8, as the code has it.  For a factor \<open>f > 0\<close> and a sequence \<open>x\<close> such that
  \<open>length x * f\<close> fits \<^verbatim>\<open>size_t\<close>, \<^verbatim>\<open>seq_upsample\<close> with \<open>f\<close> followed by \<^verbatim>\<open>seq_downsample\<close>
  with \<open>f\<close> succeeds and gives back the input sequence (the two output buffers being
  allocated).
\<close>

theorem C8_downsample_upsample:
  fixes x :: "'a::zero list"
  assumes "0 < f" "length x * f < 2 ^ 64" "mem (length x * f)" "mem (length x)"
  shows "\<exists>u. seq_upsample mem (Some x) f (Some d1) = Returns (SEQ_OK, Some u)
           \<and> seq_downsample mem (Some u) f (Some d2) = Returns (SEQ_OK, Some x)"
proof -
  let ?u = "upsample_list f x"
  have up: "seq_upsample mem (Some x) f (Some d1) = Returns (SEQ_OK, Some ?u)"
    using assms(1,2,3) by (rule seq_upsample_eq)
  have len: "length ?u = length x * f" using assms(1) by simp
  have "seq_downsample mem (Some ?u) f (Some d2) = Returns (SEQ_OK, Some (downsample_list f ?u))"
    using assms by (intro seq_downsample_eq) (simp_all add: len)
  then show ?thesis
    using up assms(1) by (simp add: downsample_upsample_list)
qed

theorem C8_witness:
  "(0::nat) < 2 \<and> length [5, 7 :: int] * 2 < (2::nat) ^ 64
   \<and> (\<exists>u. seq_upsample (\<lambda>n. True) (Some [5, 7 :: int]) 2 (Some []) = Returns (SEQ_OK, Some u)
           \<and> seq_downsample (\<lambda>n. True) (Some u) 2 (Some []) = Returns (SEQ_OK, Some [5, 7]))"
  using C8_downsample_upsample [of 2 "[5, 7 :: int]" "\<lambda>n. True" "[]" "[]"]
  by simp

text \<open>\<^verbatim>\<open>seq_upsample\<close> computes \<^verbatim>\<open>out_len = src->length * factor\<close> in \<^verbatim>\<open>size_t\<close> with no check.
  For \<open>x = [1, 2]\<close> and \<open>f = 2 ^ 63\<close> the product wraps to \<open>0\<close>, nothing is allocated, and
  the placing loop stores \<^verbatim>\<open>src->data[0]\<close> through the null \<^verbatim>\<open>dst->data\<close>: the call does not
  succeed.\<close>

theorem C8_counterexample:
  "seq_upsample (\<lambda>n. True) (Some [1, 2 :: int]) (2 ^ 63) (Some []) = Undefined_Behaviour"
  by (simp add: seq_upsample_def seq_prepare_output_def seq_alloc_def seq_free_def
        size_wrap_def rd_def wr_def Let_def upsample_zero.simps upsample_place.simps)

lemma diffs_cums:
  fixes a :: "'a::ab_group_add"
  shows "diffs a (cums a xs) = xs"
  by (induction xs arbitrary: a) simp_all

lemma cums_diffs:
  fixes p :: "'a::ab_group_add"
  shows "cums p (diffs p xs) = xs"
  by (induction xs arbitrary: p) simp_all

lemma diff_list_cums:
  fixes xs :: "'a::ab_group_add list"
  shows "diff_list (cums 0 xs) = xs"
  by (cases xs) (simp_all add: diff_list_def diffs_cums)

lemma cums_diff_list:
  fixes xs :: "'a::ab_group_add list"
  shows "cums 0 (diff_list xs) = xs"
  by (cases xs) (simp_all add: diff_list_def cums_diffs)

text \<open>In exact arithmetic (addition and subtraction forming an abelian group, as on real
  or integer values) the two round trips give back the input.\<close>

lemma cumsum_diff_roundtrip_exact:
  fixes x :: "'a::ab_group_add list"
  assumes "mem (length x)"
  shows "(\<exists>y. seq_cumsum mem (Some x) (Some d1) = Returns (SEQ_OK, Some y)
            \<and> seq_diff mem (Some y) (Some d2) = Returns (SEQ_OK, Some x))
       \<and> (\<exists>y. seq_diff mem (Some x) (Some d1) = Returns (SEQ_OK, Some y)
            \<and> seq_cumsum mem (Some y) (Some d2) = Returns (SEQ_OK, Some x))"
proof
  have "seq_diff mem (Some (cums 0 x)) (Some d2) = Returns (SEQ_OK, Some (diff_list (cums 0 x)))"
    using assms by (intro seq_diff_eq) simp
  then show "\<exists>y. seq_cumsum mem (Some x) (Some d1) = Returns (SEQ_OK, Some y)
            \<and> seq_diff mem (Some y) (Some d2) = Returns (SEQ_OK, Some x)"
    using seq_cumsum_eq[of mem x d1] assms by (simp add: diff_list_cums)
next
  have "seq_cumsum mem (Some (diff_list x)) (Some d2)
        = Returns (SEQ_OK, Some (cums 0 (diff_list x)))"
    using assms by (intro seq_cumsum_eq) simp
  then show "\<exists>y. seq_diff mem (Some x) (Some d1) = Returns (SEQ_OK, Some y)
            \<and> seq_cumsum mem (Some y) (Some d2) = Returns (SEQ_OK, Some x)"
    using seq_diff_eq[of mem x d1] assms by (simp add: cums_diff_list)
qed

section \<open>Rounding to double\<close>

lemma double_shift_unique:
  assumes "m div 2 ^ k < 2 ^ 53" "j \<le> k" "k = j \<or> 2 ^ 53 \<le> m div 2 ^ (k - 1)"
  shows "double_shift m j = k"
  using assms
proof (induction "k - j" arbitrary: j)
  case 0
  then have "j = k" by simp
  with 0 show ?case by (subst double_shift.simps) simp
next
  case (Suc d)
  then have lt: "j < k" by simp
  then have big: "2 ^ 53 \<le> m div 2 ^ (k - 1)" using Suc.prems(3) by simp
  have "(2::nat) ^ j \<le> 2 ^ (k - 1)" using lt by (intro power_increasing) simp_all
  then have "m div 2 ^ (k - 1) \<le> m div 2 ^ j" by (intro div_le_mono2) simp_all
  then have nlt: "\<not> m div 2 ^ j < 2 ^ 53" using big by linarith
  have "double_shift m (j + 1) = k"
    using Suc.hyps(2) lt Suc.prems(1) big by (intro Suc.hyps(1)) simp_all
  then show ?case using nlt by (subst double_shift.simps) simp
qed

lemma double_shift_le:
  assumes "m div 2 ^ e < 2 ^ 53" "j \<le> e"
  shows "double_shift m j \<le> e"
  using assms
proof (induction "e - j" arbitrary: j)
  case 0
  then have "j = e" by simp
  with 0 show ?case by (subst double_shift.simps) simp
next
  case (Suc d)
  then have lt: "j < e" by simp
  show ?case
  proof (cases "m div 2 ^ j < 2 ^ 53")
    case True
    then show ?thesis using lt by (subst double_shift.simps) simp
  next
    case False
    have "double_shift m (j + 1) \<le> e"
      using Suc.hyps(2) lt Suc.prems(1) by (intro Suc.hyps(1)) simp_all
    then show ?thesis using False by (subst double_shift.simps) simp
  qed
qed

text \<open>A value with at most 53 significant bits is not changed by the rounding.\<close>

lemma round_ratio_exact:
  assumes "\<bar>m\<bar> < 2 ^ 53"
  shows "round_ratio (m * 2 ^ e) 1 = m * 2 ^ e"
proof -
  define n where "n = nat \<bar>m\<bar> * 2 ^ e"
  define k where "k = double_shift (n div 1) 0"
  have nn: "nat \<bar>m * 2 ^ e\<bar> = n" by (simp add: n_def abs_mult nat_mult_distrib)
  have "n div 2 ^ e < 2 ^ 53" using assms by (simp add: n_def)
  then have ke: "k \<le> e" unfolding k_def by (intro double_shift_le) simp_all
  then have "n = (nat \<bar>m\<bar> * 2 ^ (e - k)) * 2 ^ k"
    by (simp add: n_def power_add[symmetric])
  then have dv: "n mod 2 ^ k = 0" and q: "n div 2 ^ k * 2 ^ k = n"
    by (metis mod_mult_self2_is_0, metis dvd_div_mult_self dvd_triv_right)
  have "round_ratio (m * 2 ^ e) 1 = sgn (m * 2 ^ e) * int n"
    unfolding round_ratio_def nn Let_def k_def[symmetric]
    using dv q by simp
  also have "\<dots> = sgn m * \<bar>m\<bar> * 2 ^ e"
    by (simp add: n_def sgn_mult)
  also have "\<dots> = m * 2 ^ e"
    by (simp only: mult_sgn_abs)
  finally show ?thesis .
qed


text \<open>The rounding, once the exponent is known.\<close>

lemma round_ratio_at:
  assumes "nat \<bar>n\<bar> div d div 2 ^ k < 2 ^ 53" "k = 0 \<or> 2 ^ 53 \<le> nat \<bar>n\<bar> div d div 2 ^ (k - 1)"
  shows "round_ratio n d =
     (let m = nat \<bar>n\<bar>; q = m div (d * 2 ^ k); r = m mod (d * 2 ^ k);
          q' = (if 2 * r > d * 2 ^ k \<or> (2 * r = d * 2 ^ k \<and> odd q) then q + 1 else q)
      in sgn n * int (q' * 2 ^ k))"
proof -
  have "double_shift (nat \<bar>n\<bar> div d) 0 = k"
    using assms by (intro double_shift_unique) auto
  then show ?thesis by (simp add: round_ratio_def Let_def)
qed

lemma is_double_dyadic:
  assumes "\<bar>m\<bar> < 2 ^ 53" "e \<le> 2045"
  shows "is_double (m * 2 ^ e)"
proof -
  have "\<bar>m * 2 ^ e\<bar> = \<bar>m\<bar> * 2 ^ e" by (simp add: abs_mult)
  also have "\<dots> < 2 ^ 53 * 2 ^ e" using assms(1) by simp
  also have "\<dots> \<le> 2 ^ 53 * 2 ^ 2045"
    using assms(2) by (intro mult_left_mono power_increasing) simp_all
  also have "\<dots> = (2 :: int) ^ 2098" by simp
  finally have "\<bar>m * 2 ^ e\<bar> < 2 ^ 2098" .
  then show ?thesis
    unfolding is_double_def using round_ratio_exact[OF assms(1)] by simp
qed

section \<open>The round trip in double arithmetic\<close>

lemma cums_Double:
  assumes "sums_exact a ks"
  shows "cums (Double a) (map Double ks) = map Double (cums a ks)"
  using assms by (induction ks arbitrary: a) (simp_all add: is_double_def)

lemma diffs_Double:
  assumes "diffs_exact p ks"
  shows "diffs (Double p) (map Double ks) = map Double (diffs p ks)"
  using assms by (induction ks arbitrary: p) (simp_all add: is_double_def)

lemma diffs_exact_cums:
  assumes "list_all is_double ks"
  shows "diffs_exact a (cums a ks)"
  using assms by (induction ks arbitrary: a) simp_all

lemma sums_exact_diffs:
  assumes "list_all is_double ks"
  shows "sums_exact p (diffs p ks)"
  using assms by (induction ks arbitrary: p) simp_all

lemma diff_list_cums_double:
  assumes "list_all is_double ks" "sums_exact 0 ks"
  shows "diff_list (cums 0 (map Double ks)) = map Double ks"
proof (cases ks)
  case Nil
  then show ?thesis by (simp add: diff_list_def)
next
  case (Cons k r)
  have c: "cums 0 (map Double ks) = map Double (cums 0 ks)"
    unfolding zero_double_def using assms(2) by (rule cums_Double)
  have "diffs_exact k (cums k r)"
    using assms(1) Cons by (intro diffs_exact_cums) simp
  then have "diffs (Double k) (map Double (cums k r)) = map Double (diffs k (cums k r))"
    by (rule diffs_Double)
  then have d: "diffs (Double k) (map Double (cums k r)) = map Double r"
    by (simp only: diffs_cums)
  have "diff_list (cums 0 (map Double ks)) = diff_list (map Double (cums 0 ks))"
    by (simp only: c)
  also have "\<dots> = diff_list (map Double (k # cums k r))"
    using Cons by simp
  also have "\<dots> = Double k # diffs (Double k) (map Double (cums k r))"
    by (simp add: diff_list_def)
  also have "\<dots> = Double k # map Double r"
    by (simp only: d)
  also have "\<dots> = map Double ks"
    using Cons by simp
  finally show ?thesis .
qed

lemma cums_diff_list_double:
  assumes "list_all is_double ks" "diff_exact ks"
  shows "cums 0 (diff_list (map Double ks)) = map Double ks"
proof (cases ks)
  case Nil
  then show ?thesis by (simp add: diff_list_def)
next
  case (Cons k r)
  have d: "diffs (Double k) (map Double r) = map Double (diffs k r)"
    using assms(2) Cons by (intro diffs_Double) (simp add: diff_exact_def)
  have "sums_exact 0 (k # diffs k r)"
    using assms(1) Cons by (simp add: sums_exact_diffs)
  then have c: "cums (Double 0) (map Double (k # diffs k r))
                = map Double (cums 0 (k # diffs k r))"
    by (rule cums_Double)
  have "diff_list (map Double ks) = Double k # diffs (Double k) (map Double r)"
    using Cons by (simp add: diff_list_def)
  also have "\<dots> = map Double (k # diffs k r)"
    by (simp add: d)
  finally have "cums 0 (diff_list (map Double ks))
                = cums (Double 0) (map Double (k # diffs k r))"
    by (simp only: zero_double_def)
  also have "\<dots> = map Double (cums 0 (k # diffs k r))"
    by (rule c)
  also have "\<dots> = map Double (k # r)"
    by (simp add: cums_diffs)
  also have "\<dots> = map Double ks"
    using Cons by simp
  finally show ?thesis .
qed

text \<open>
  Claim C7, as the code has it.  For every sequence of doubles whose running sums are
  doubles again (no addition of \<^verbatim>\<open>seq_cumsum\<close> rounds), \<^verbatim>\<open>seq_cumsum\<close> followed by
  \<^verbatim>\<open>seq_diff\<close> succeeds and gives back the sequence; for every sequence of doubles whose
  successive differences are doubles again (no subtraction of \<^verbatim>\<open>seq_diff\<close> rounds),
  \<^verbatim>\<open>seq_diff\<close> followed by \<^verbatim>\<open>seq_cumsum\<close> succeeds and gives back the sequence; for any
  length, the output buffers being allocated.
\<close>

theorem C7_cumsum_diff_roundtrip:
  assumes "mem (length ks)" "list_all is_double ks"
  shows "(sums_exact 0 ks
            \<longrightarrow> (\<exists>y. seq_cumsum mem (Some (map Double ks)) (Some d1) = Returns (SEQ_OK, Some y)
                   \<and> seq_diff mem (Some y) (Some d2) = Returns (SEQ_OK, Some (map Double ks))))
       \<and> (diff_exact ks
            \<longrightarrow> (\<exists>y. seq_diff mem (Some (map Double ks)) (Some d1) = Returns (SEQ_OK, Some y)
                   \<and> seq_cumsum mem (Some y) (Some d2) = Returns (SEQ_OK, Some (map Double ks))))"
proof (intro conjI impI)
  let ?x = "map Double ks"
  assume ex: "sums_exact 0 ks"
  have "seq_diff mem (Some (cums 0 ?x)) (Some d2) = Returns (SEQ_OK, Some (diff_list (cums 0 ?x)))"
    using assms(1) by (intro seq_diff_eq) simp
  then show "\<exists>y. seq_cumsum mem (Some ?x) (Some d1) = Returns (SEQ_OK, Some y)
            \<and> seq_diff mem (Some y) (Some d2) = Returns (SEQ_OK, Some ?x)"
    using seq_cumsum_eq[of mem ?x d1] assms ex by (simp add: diff_list_cums_double)
next
  let ?x = "map Double ks"
  assume ex: "diff_exact ks"
  have "seq_cumsum mem (Some (diff_list ?x)) (Some d2)
        = Returns (SEQ_OK, Some (cums 0 (diff_list ?x)))"
    using assms(1) by (intro seq_cumsum_eq) simp
  then show "\<exists>y. seq_diff mem (Some ?x) (Some d1) = Returns (SEQ_OK, Some y)
            \<and> seq_cumsum mem (Some y) (Some d2) = Returns (SEQ_OK, Some ?x)"
    using seq_diff_eq[of mem ?x d1] assms ex by (simp add: cums_diff_list_double)
qed

theorem C7_witness:
  "list_all is_double [3 * 2 ^ 1074, - 1 * 2 ^ 1074, 4 * 2 ^ 1074]
   \<and> sums_exact 0 [3 * 2 ^ 1074, - 1 * 2 ^ 1074, 4 * 2 ^ 1074]
   \<and> diff_exact [3 * 2 ^ 1074, - 1 * 2 ^ 1074, 4 * 2 ^ 1074]
   \<and> (\<exists>y. seq_cumsum (\<lambda>n. True) (Some (map Double [3 * 2 ^ 1074, - 1 * 2 ^ 1074, 4 * 2 ^ 1074]))
             (Some []) = Returns (SEQ_OK, Some y)
        \<and> seq_diff (\<lambda>n. True) (Some y) (Some [])
          = Returns (SEQ_OK, Some (map Double [3 * 2 ^ 1074, - 1 * 2 ^ 1074, 4 * 2 ^ 1074])))
   \<and> (\<exists>y. seq_diff (\<lambda>n. True) (Some (map Double [3 * 2 ^ 1074, - 1 * 2 ^ 1074, 4 * 2 ^ 1074]))
             (Some []) = Returns (SEQ_OK, Some y)
        \<and> seq_cumsum (\<lambda>n. True) (Some y) (Some [])
          = Returns (SEQ_OK, Some (map Double [3 * 2 ^ 1074, - 1 * 2 ^ 1074, 4 * 2 ^ 1074])))"
proof -
  let ?ks = "[3 * 2 ^ 1074, - 1 * 2 ^ 1074, 4 * 2 ^ 1074 :: int]"
  have d: "is_double (3 * 2 ^ 1074)" "is_double (- 1 * 2 ^ 1074)" "is_double (4 * 2 ^ 1074)"
    "is_double (2 * 2 ^ 1074)" "is_double (6 * 2 ^ 1074)" "is_double (- 4 * 2 ^ 1074)"
    "is_double (5 * 2 ^ 1074)"
    by (rule is_double_dyadic, simp, simp)+
  have a: "list_all is_double ?ks" using d by simp
  have s: "sums_exact 0 ?ks" using d by simp
  have e: "diff_exact ?ks" using d by (simp add: diff_exact_def)
  show ?thesis
    using C7_cumsum_diff_roundtrip [of "\<lambda>n. True" ?ks "[]" "[]"] a s e by blast
qed

text \<open>In double arithmetic the round trip is not exact: \<open>2 ^ 53 + 1\<close> is not a double
  and the running sum rounds to \<open>2 ^ 53\<close>, so \<^verbatim>\<open>seq_cumsum\<close> maps \<open>[2 ^ 53, 1]\<close> to
  \<open>[2 ^ 53, 2 ^ 53]\<close>, which \<^verbatim>\<open>seq_diff\<close> maps to \<open>[2 ^ 53, 0]\<close>.\<close>

lemma round_ratio_tie: "round_ratio (2 ^ 53 * 2 ^ 1074 + 1 * 2 ^ 1074) 1 = 2 ^ 53 * 2 ^ 1074"
  by (subst round_ratio_at[where k = 1075]) (simp_all add: Let_def)

theorem C7_counterexample:
  "seq_cumsum (\<lambda>n. True) (Some [dyadic 1 53, dyadic 1 0]) (Some [])
     = Returns (SEQ_OK, Some [dyadic 1 53, dyadic 1 53])
   \<and> seq_diff (\<lambda>n. True) (Some [dyadic 1 53, dyadic 1 53]) (Some [])
     = Returns (SEQ_OK, Some [dyadic 1 53, dyadic 0 0])
   \<and> dyadic 0 0 \<noteq> dyadic 1 0"
proof -
  have r: "round_ratio (1 * 2 ^ 1127) 1 = 1 * 2 ^ 1127" "round_ratio (0 * 2 ^ 0) 1 = 0 * 2 ^ 0"
    by (rule round_ratio_exact, simp)+
  have c: "cums 0 [dyadic 1 53, dyadic 1 0] = [dyadic 1 53, dyadic 1 53]"
    using r round_ratio_tie by (simp add: dyadic_def zero_double_def)
  have d: "diff_list [dyadic 1 53, dyadic 1 53] = [dyadic 1 53, dyadic 0 0]"
    using r by (simp add: diff_list_def dyadic_def)
  have "seq_cumsum (\<lambda>n. True) (Some [dyadic 1 53, dyadic 1 0]) (Some [])
        = Returns (SEQ_OK, Some (cums 0 [dyadic 1 53, dyadic 1 0]))"
    by (rule seq_cumsum_eq) simp
  moreover have "seq_diff (\<lambda>n. True) (Some [dyadic 1 53, dyadic 1 53]) (Some [])
        = Returns (SEQ_OK, Some (diff_list [dyadic 1 53, dyadic 1 53]))"
    by (rule seq_diff_eq) simp
  ultimately show ?thesis unfolding c d by (simp add: dyadic_def)
qed

section \<open>The sliding window\<close>

lemma seq_window_init_inv:
  assumes "cap < 2 ^ 63" and "seq_window_init mem (Some w0) cap = (rc, Some ww)"
  shows "window_inv ww"
  using assms
  by (auto simp: seq_window_init_def window_inv_def Let_def split: if_splits)

lemma seq_window_push_inv:
  assumes "window_inv ww"
  shows "\<exists>ww'. seq_window_push (Some ww) x = Returns (Some ww') \<and> window_inv ww'"
proof (cases "w_buf ww")
  case None
  then show ?thesis using assms by (simp add: seq_window_push_def)
next
  case (Some b)
  with assms have inv: "length b = capacity ww" "0 < capacity ww" "capacity ww < 2 ^ 63"
    "count ww \<le> capacity ww" "start ww < capacity ww"
    by (simp_all add: window_inv_def)
  have w1: "size_wrap (start ww + count ww) = start ww + count ww"
    using inv by (intro size_wrap_id) simp
  have w2: "size_wrap (count ww + 1) = count ww + 1"
    using inv by (intro size_wrap_id) simp
  have w3: "size_wrap (start ww + 1) = start ww + 1"
    using inv by (intro size_wrap_id) simp
  show ?thesis
    using Some inv w1 w2 w3
    by (auto simp: seq_window_push_def wr_def window_inv_def)
qed

text \<open>
  Claim C10.  \<^verbatim>\<open>seq_window_get\<close> returns \<open>0\<close> for a null window, a null buffer, a zero
  capacity or an index \<open>i \<ge> count\<close>; otherwise, on a window that satisfies the
  invariant kept by \<^verbatim>\<open>seq_window_init\<close> and \<^verbatim>\<open>seq_window_push\<close>, the physical index
  \<open>(start + i) mod capacity\<close> lies inside the buffer and the sample stored there is
  returned.  No call reads outside the buffer.
\<close>

theorem C10_window_get_total:
  fixes ww :: "'a::zero seq_window_t"
  shows "seq_window_get (None :: 'a seq_window_t option) i = Returns 0
       \<and> (w_buf ww = None \<or> capacity ww = 0 \<or> count ww \<le> i
            \<longrightarrow> seq_window_get (Some ww) i = Returns 0)
       \<and> (window_inv ww \<and> w_buf ww = Some b \<and> i < count ww
            \<longrightarrow> (start ww + i) mod capacity ww < length b
              \<and> seq_window_get (Some ww) i = Returns (b ! ((start ww + i) mod capacity ww)))"
proof (intro conjI impI)
  show "seq_window_get (None :: 'a seq_window_t option) i = Returns 0"
    by (simp add: seq_window_get_def)
next
  assume "w_buf ww = None \<or> capacity ww = 0 \<or> count ww \<le> i"
  then show "seq_window_get (Some ww) i = Returns 0"
    by (auto simp: seq_window_get_def split: option.splits)
next
  assume h: "window_inv ww \<and> w_buf ww = Some b \<and> i < count ww"
  then have wi: "window_inv ww" and wb: "w_buf ww = Some b" by simp_all
  from wi have inv: "length b = capacity ww" "0 < capacity ww" "capacity ww < 2 ^ 63"
    "count ww \<le> capacity ww" "start ww < capacity ww"
    by (simp_all add: window_inv_def wb)
  show "(start ww + i) mod capacity ww < length b"
    using inv by simp
  have "size_wrap (start ww + i) = start ww + i"
    using inv h by (intro size_wrap_id) simp
  then show "seq_window_get (Some ww) i = Returns (b ! ((start ww + i) mod capacity ww))"
    using h inv by (simp add: seq_window_get_def rd_def)
qed

theorem C10_witness:
  "window_inv \<lparr>w_buf = Some [1, 2, 3 :: int], capacity = 3, start = 1, count = 3\<rparr>
   \<and> seq_window_get (Some \<lparr>w_buf = Some [1, 2, 3 :: int], capacity = 3, start = 1, count = 3\<rparr>) 2
       = Returns 1
   \<and> seq_window_get (Some \<lparr>w_buf = Some [1, 2, 3 :: int], capacity = 3, start = 1, count = 3\<rparr>) 3
       = Returns 0"
  using C10_window_get_total
          [of 2 "\<lparr>w_buf = Some [1, 2, 3 :: int], capacity = 3, start = 1, count = 3\<rparr>" "[1, 2, 3]"]
        C10_window_get_total
          [of 3 "\<lparr>w_buf = Some [1, 2, 3 :: int], capacity = 3, start = 1, count = 3\<rparr>" "[1, 2, 3]"]
  by (simp add: window_inv_def)

section \<open>Linear convolution\<close>

lemma filter_upt_interval:
  assumes "\<And>k. k < la \<Longrightarrow> P k \<longleftrightarrow> lo \<le> k \<and> k \<le> hi" and "lo \<le> hi \<Longrightarrow> hi < la"
  shows "filter P [0..<la] = [lo..<Suc hi]"
proof (rule sorted_distinct_set_unique)
  show "sorted (filter P [0..<la])" by (simp add: sorted_wrt_filter)
  show "distinct (filter P [0..<la])" by simp
  show "sorted [lo..<Suc hi]" by (rule sorted_upt)
  show "distinct [lo..<Suc hi]" by (rule distinct_upt)
  show "set (filter P [0..<la]) = set [lo..<Suc hi]"
    using assms by auto
qed

lemma foldl_add_sum:
  fixes g :: "nat \<Rightarrow> 'a::comm_monoid_add"
  assumes "distinct ks"
  shows "foldl (\<lambda>s k. s + g k) a ks = a + sum g (set ks)"
  using assms
proof (induction ks arbitrary: a)
  case Nil
  show ?case by simp
next
  case (Cons k ks)
  then show ?case by (simp add: add.assoc)
qed

lemma conv_linear_inner_fold:
  fixes a b :: "'a::{plus,times} list"
  assumes "k \<le> Suc k_max" "k_max < length a" "k_max \<le> n" "n - k < length b"
  shows "conv_linear_inner a b n k_max k ac
         = Some (foldl (\<lambda>s j. s + a ! j * b ! (n - j)) ac [k..<Suc k_max])"
  using assms
proof (induction a b n k_max k ac rule: conv_linear_inner.induct)
  case (1 a b n k_max k ac)
  show ?case
  proof (cases "k \<le> k_max")
    case True
    have ra: "rd a k = Some (a ! k)" using True "1.prems" by (simp add: rd_def)
    have rb: "rd b (size_sub n k) = Some (b ! (n - k))"
      using True "1.prems" by (simp add: rd_def size_sub_def)
    have "conv_linear_inner a b n k_max (Suc k) (ac + a ! k * b ! (n - k))
          = Some (foldl (\<lambda>s j. s + a ! j * b ! (n - j)) (ac + a ! k * b ! (n - k))
                    [Suc k..<Suc k_max])"
      using True "1.prems" ra rb
      by (intro "1.IH"[OF True ra _]) (simp_all add: size_sub_def)
    moreover have "[k..<Suc k_max] = k # [Suc k..<Suc k_max]"
      using True by (simp add: upt_conv_Cons)
    ultimately show ?thesis
      using True ra rb
      by (subst conv_linear_inner.simps) simp
  next
    case False
    with "1.prems" show ?thesis
      by (subst conv_linear_inner.simps) simp
  qed
qed

lemma conv_linear_outer_acc:
  fixes a b :: "'a::{zero,plus,times} list"
  assumes "0 < length a" "0 < length b" "ly = length a + length b - 1" "length out = ly" "n \<le> ly"
  shows "conv_linear_outer a b ly n out = Some (take n out @ map (conv_linear_acc a b) [n..<ly])"
  using assms
proof (induction a b ly n out rule: conv_linear_outer.induct)
  case (1 a b ly n out)
  show ?case
  proof (cases "n < ly")
    case True
    define k_min where "k_min = (if n \<ge> length b - 1 then n - (length b - 1) else 0)"
    define k_max where "k_max = (if n < length a - 1 then n else length a - 1)"
    have bounds: "k_max < length a" "k_max \<le> n" "n - k_min < length b" "k_min \<le> Suc k_max"
      using True "1.prems" by (auto simp: k_min_def k_max_def)
    have "conv_linear_inner a b n k_max k_min 0
          = Some (foldl (\<lambda>s j. s + a ! j * b ! (n - j)) 0 [k_min..<Suc k_max])"
      using bounds by (intro conv_linear_inner_fold) simp_all
    moreover have "filter (\<lambda>k. k \<le> n \<and> n - k < length b) [0..<length a] = [k_min..<Suc k_max]"
    proof (rule filter_upt_interval)
      fix k assume "k < length a"
      then show "(k \<le> n \<and> n - k < length b) \<longleftrightarrow> (k_min \<le> k \<and> k \<le> k_max)"
        using "1.prems"(1,2) unfolding k_min_def k_max_def by (simp del: length_greater_0_conv) linarith
    next
      show "k_max < length a" by (rule bounds(1))
    qed
    ultimately have inner: "conv_linear_inner a b n k_max k_min 0 = Some (conv_linear_acc a b n)"
      by (simp add: conv_linear_acc_def)
    have w: "wr out n (conv_linear_acc a b n) = Some (out[n := conv_linear_acc a b n])"
      using True "1.prems" by (simp add: wr_def)
    have step: "conv_linear_outer a b ly n out
          = (case conv_linear_inner a b n k_max k_min 0 of
               None \<Rightarrow> None
             | Some ac \<Rightarrow>
                 (case wr out n ac of
                    None \<Rightarrow> None
                  | Some out' \<Rightarrow> conv_linear_outer a b ly (Suc n) out'))"
      unfolding k_min_def k_max_def
      by (subst conv_linear_outer.simps) (simp only: True if_True Let_def)
    have len': "length (out[n := conv_linear_acc a b n]) = ly" using "1.prems"(4) by simp
    have sn: "Suc n \<le> ly" using True by simp
    have "conv_linear_outer a b ly (Suc n) (out[n := conv_linear_acc a b n])
          = Some (take (Suc n) (out[n := conv_linear_acc a b n])
                  @ map (conv_linear_acc a b) [Suc n..<ly])"
      by (rule "1.IH"[OF True refl refl refl refl
            inner[unfolded k_min_def k_max_def] w
            "1.prems"(1) "1.prems"(2) "1.prems"(3) len' sn])
    then show ?thesis
      unfolding step inner
      using True "1.prems"(4) by (simp add: w take_Suc_update upt_conv_Cons)
  next
    case False
    with "1.prems" show ?thesis
      by (subst conv_linear_outer.simps) simp
  qed
qed

text \<open>Where addition is associative and commutative the accumulation is the sum over
  the set of valid indices.\<close>

lemma conv_linear_acc_sum:
  fixes a b :: "'a::semiring_0 list"
  shows "conv_linear_acc a b n
         = (\<Sum>k \<in> {k. k < length a \<and> k \<le> n \<and> n - k < length b}. a ! k * b ! (n - k))"
proof -
  have "set (filter (\<lambda>k. k \<le> n \<and> n - k < length b) [0..<length a])
        = {k. k < length a \<and> k \<le> n \<and> n - k < length b}"
    by auto
  then show ?thesis
    unfolding conv_linear_acc_def
    by (subst foldl_add_sum) simp_all
qed

text \<open>
  Claim C4.  \<^verbatim>\<open>seq_conv_linear\<close> gives an empty output when either input is empty;
  otherwise (the output being allocated) it succeeds with \<open>length a + length b - 1\<close>
  samples, sample \<open>n\<close> being the sum of \<open>a[k] * b[n - k]\<close>, accumulated from \<open>0\<close> in
  ascending order, over the \<open>k\<close> for which \<open>k\<close> is an index of \<open>a\<close> and \<open>n - k\<close> an index of
  \<open>b\<close>, in any sample arithmetic; and \<open>conv-linear([1,2],[3,4]) = [3,10,8]\<close>.
\<close>

theorem C4_conv_linear:
  fixes a b :: "'a::{zero,plus,times} list"
  shows "(a = [] \<or> b = []
            \<longrightarrow> seq_conv_linear mem (Some a) (Some b) (Some out) = Returns (0, Some []))
       \<and> (a \<noteq> [] \<and> b \<noteq> [] \<and> length a + length b - 1 < 2 ^ 64
          \<and> mem (length a + length b - 1)
            \<longrightarrow> (\<exists>y. seq_conv_linear mem (Some a) (Some b) (Some out) = Returns (0, Some y)
                   \<and> length y = length a + length b - 1
                   \<and> (\<forall>n < length y.
                        y ! n = foldl (\<lambda>s k. s + a ! k * b ! (n - k)) 0
                                  (filter (\<lambda>k. k \<le> n \<and> n - k < length b) [0..<length a]))))
       \<and> seq_conv_linear (\<lambda>n. True) (Some [1, 2]) (Some [3, 4]) (Some [])
           = Returns (0, Some [3, 10, 8 :: real])"
proof (intro conjI impI)
  assume "a = [] \<or> b = []"
  then show "seq_conv_linear mem (Some a) (Some b) (Some out) = Returns (0, Some [])"
    by (auto simp: seq_conv_linear_def seq_init_def)
next
  assume h: "a \<noteq> [] \<and> b \<noteq> [] \<and> length a + length b - 1 < 2 ^ 64
             \<and> mem (length a + length b - 1)"
  let ?ly = "length a + length b - 1"
  let ?y = "map (conv_linear_acc a b) [0..<?ly]"
  have ly: "size_wrap ?ly = ?ly" using h by (intro size_wrap_id) simp
  have pos: "0 < ?ly" using h by (cases a; cases b) simp_all
  have "conv_linear_outer a b ?ly 0 (replicate ?ly 0) = Some ?y"
    using h by (subst conv_linear_outer_acc) simp_all
  then have "seq_conv_linear mem (Some a) (Some b) (Some out) = Returns (0, Some ?y)"
    using h ly pos by (simp add: seq_conv_linear_def seq_init_def)
  moreover have "\<forall>n < length ?y.
      ?y ! n = foldl (\<lambda>s k. s + a ! k * b ! (n - k)) 0
                 (filter (\<lambda>k. k \<le> n \<and> n - k < length b) [0..<length a])"
    by (simp add: conv_linear_acc_def)
  ultimately show "\<exists>y. seq_conv_linear mem (Some a) (Some b) (Some out) = Returns (0, Some y)
      \<and> length y = length a + length b - 1
      \<and> (\<forall>n < length y.
            y ! n = foldl (\<lambda>s k. s + a ! k * b ! (n - k)) 0
                      (filter (\<lambda>k. k \<le> n \<and> n - k < length b) [0..<length a]))"
    by simp
next
  show "seq_conv_linear (\<lambda>n. True) (Some [1, 2]) (Some [3, 4]) (Some [])
           = Returns (0, Some [3, 10, 8 :: real])"
    by (simp add: seq_conv_linear_def ops_eval conv_linear_inner.simps conv_linear_outer.simps)
qed

theorem C4_witness:
  "[1, 2 :: real] \<noteq> [] \<and> [3, 4 :: real] \<noteq> []
   \<and> (\<exists>y. seq_conv_linear (\<lambda>n. True) (Some [1, 2 :: real]) (Some [3, 4]) (Some [7])
              = Returns (0, Some y)
          \<and> length y = length [1, 2 :: real] + length [3, 4 :: real] - 1
          \<and> (\<forall>n < length y.
                y ! n = foldl (\<lambda>s k. s + [1, 2] ! k * [3, 4] ! (n - k)) 0
                          (filter (\<lambda>k. k \<le> n \<and> n - k < length [3, 4 :: real])
                             [0..<length [1, 2 :: real]])))
   \<and> seq_conv_linear (\<lambda>n. True) (Some []) (Some [3, 4 :: real]) (Some [7]) = Returns (0, Some [])"
  using C4_conv_linear [of "[1, 2 :: real]" "[3, 4]" "\<lambda>n. True" "[7]"]
        C4_conv_linear [of "[] :: real list" "[3, 4]" "\<lambda>n. True" "[7]"]
  by simp

section \<open>Circular convolution\<close>

lemma circ_index:
  assumes "n < N" "k < N" "N < 2 ^ 63"
  shows "size_wrap (n + N - k) mod N = nat ((int n - int k) mod int N)"
proof -
  have "size_wrap (n + N - k) = n + N - k"
    using assms by (intro size_wrap_id) simp
  moreover have "int ((n + N - k) mod N) = (int n - int k) mod int N"
  proof -
    have "int ((n + N - k) mod N) = (int n + int N - int k) mod int N"
      using assms by (simp add: zmod_int of_nat_diff)
    also have "\<dots> = (int n - int k + int N) mod int N"
      by (simp add: algebra_simps)
    also have "\<dots> = (int n - int k) mod int N"
      by simp
    finally show ?thesis .
  qed
  ultimately show ?thesis by (metis nat_int)
qed

lemma conv_circular_inner_fold:
  fixes a b :: "'a::{plus,times} list"
  assumes "k \<le> nlen" "length a = nlen" "length b = nlen" "n < nlen" "nlen < 2 ^ 63"
  shows "conv_circular_inner a b n nlen k ac
         = Some (foldl (\<lambda>s j. s + a ! j * b ! nat ((int n - int j) mod int nlen)) ac [k..<nlen])"
  using assms
proof (induction a b n nlen k ac rule: conv_circular_inner.induct)
  case (1 a b n nlen k ac)
  show ?case
  proof (cases "k < nlen")
    case True
    let ?j = "nat ((int n - int k) mod int nlen)"
    have idx: "size_wrap (n + nlen - k) mod nlen = ?j"
      using True "1.prems" by (intro circ_index) simp_all
    have "?j < nlen"
      using True by (simp add: nat_less_iff)
    then have rb: "rd b (size_wrap (n + nlen - k) mod nlen) = Some (b ! ?j)"
      using "1.prems" idx by (simp add: rd_def)
    have ra: "rd a k = Some (a ! k)" using True "1.prems" by (simp add: rd_def)
    have "conv_circular_inner a b n nlen (Suc k) (ac + a ! k * b ! ?j)
          = Some (foldl (\<lambda>s j. s + a ! j * b ! nat ((int n - int j) mod int nlen))
                    (ac + a ! k * b ! ?j) [Suc k..<nlen])"
      using True "1.prems" by (intro "1.IH"[OF True ra rb]) simp_all
    then show ?thesis
      using True ra rb
      by (subst conv_circular_inner.simps) (simp add: upt_conv_Cons)
  next
    case False
    with "1.prems" show ?thesis
      by (subst conv_circular_inner.simps) simp
  qed
qed

lemma conv_circular_outer_acc:
  fixes a b :: "'a::{zero,plus,times} list"
  assumes "length a = nlen" "length b = nlen" "nlen < 2 ^ 63" "length out = nlen" "n \<le> nlen"
  shows "conv_circular_outer a b nlen n out
         = Some (take n out @ map (conv_circular_acc a b) [n..<nlen])"
  using assms
proof (induction a b nlen n out rule: conv_circular_outer.induct)
  case (1 a b nlen n out)
  show ?case
  proof (cases "n < nlen")
    case True
    have inner: "conv_circular_inner a b n nlen 0 0 = Some (conv_circular_acc a b n)"
      using True "1.prems"
      by (simp add: conv_circular_inner_fold conv_circular_acc_def)
    have w: "wr out n (conv_circular_acc a b n) = Some (out[n := conv_circular_acc a b n])"
      using True "1.prems" by (simp add: wr_def)
    have "conv_circular_outer a b nlen (Suc n) (out[n := conv_circular_acc a b n])
          = Some (take (Suc n) (out[n := conv_circular_acc a b n])
                  @ map (conv_circular_acc a b) [Suc n..<nlen])"
      using True "1.prems"
      by (intro "1.IH"[OF True inner w]) simp_all
    then show ?thesis
      using True inner w "1.prems"
      by (subst conv_circular_outer.simps) (simp add: take_Suc_update upt_conv_Cons)
  next
    case False
    with "1.prems" show ?thesis
      by (subst conv_circular_outer.simps) simp
  qed
qed

lemma conv_circular_acc_sum:
  fixes a b :: "'a::semiring_0 list"
  shows "conv_circular_acc a b n
         = (\<Sum>k = 0..<length a. a ! k * b ! nat ((int n - int k) mod int (length a)))"
  unfolding conv_circular_acc_def by (subst foldl_add_sum) simp_all

text \<open>
  Claim C5.  \<^verbatim>\<open>seq_conv_circular\<close> fails (return value \<open>- 1\<close>, the output object not
  touched) when the lengths differ or are zero; otherwise, with \<open>N\<close> the common length
  (the output being allocated), it succeeds with \<open>N\<close> samples, sample \<open>n\<close> being the sum
  of \<open>a[k] * b[(n - k) mod N]\<close> accumulated from \<open>0\<close> over \<open>k = 0, \<dots>, N - 1\<close> in this
  order, in any sample arithmetic.
\<close>

theorem C5_conv_circular:
  fixes a b :: "'a::{zero,plus,times} list"
  shows "(length a \<noteq> length b \<or> length a = 0
            \<longrightarrow> seq_conv_circular mem (Some a) (Some b) (Some out) = Returns (- 1, Some out))
       \<and> (length a = length b \<and> 0 < length a \<and> length a < 2 ^ 63 \<and> mem (length a)
            \<longrightarrow> (\<exists>y. seq_conv_circular mem (Some a) (Some b) (Some out) = Returns (0, Some y)
                   \<and> length y = length a
                   \<and> (\<forall>n < length a.
                        y ! n = foldl (\<lambda>s k. s + a ! k
                                           * b ! nat ((int n - int k) mod int (length a))) 0
                                  [0..<length a])))"
proof (intro conjI impI)
  assume "length a \<noteq> length b \<or> length a = 0"
  then show "seq_conv_circular mem (Some a) (Some b) (Some out) = Returns (- 1, Some out)"
    by (auto simp: seq_conv_circular_def)
next
  assume h: "length a = length b \<and> 0 < length a \<and> length a < 2 ^ 63 \<and> mem (length a)"
  let ?y = "map (conv_circular_acc a b) [0..<length a]"
  have "conv_circular_outer a b (length a) 0 (replicate (length a) 0) = Some ?y"
    using h by (subst conv_circular_outer_acc) simp_all
  then have "seq_conv_circular mem (Some a) (Some b) (Some out) = Returns (0, Some ?y)"
    using h by (auto simp: seq_conv_circular_def seq_init_def Let_def)
  moreover have "\<forall>n < length a.
      ?y ! n = foldl (\<lambda>s k. s + a ! k * b ! nat ((int n - int k) mod int (length a))) 0
                 [0..<length a]"
    by (simp add: conv_circular_acc_def)
  ultimately show "\<exists>y. seq_conv_circular mem (Some a) (Some b) (Some out) = Returns (0, Some y)
      \<and> length y = length a
      \<and> (\<forall>n < length a.
            y ! n = foldl (\<lambda>s k. s + a ! k * b ! nat ((int n - int k) mod int (length a))) 0
                      [0..<length a])"
    by simp
qed

theorem C5_witness:
  "seq_conv_circular (\<lambda>n. True) (Some [1, 0, 0 :: real]) (Some [0, 1]) (Some [7])
     = Returns (- 1, Some [7])
   \<and> (\<exists>y. seq_conv_circular (\<lambda>n. True) (Some [1, 0, 0 :: real]) (Some [0, 1, 0]) (Some [7])
              = Returns (0, Some y)
          \<and> length y = length [1, 0, 0 :: real]
          \<and> (\<forall>n < length [1, 0, 0 :: real].
                y ! n = foldl (\<lambda>s k. s + [1, 0, 0] ! k
                                   * [0, 1, 0] ! nat ((int n - int k)
                                                       mod int (length [1, 0, 0 :: real]))) 0
                          [0..<length [1, 0, 0 :: real]]))"
  using C5_conv_circular [of "[1, 0, 0 :: real]" "[0, 1]" "\<lambda>n. True" "[7]"]
        C5_conv_circular [of "[1, 0, 0 :: real]" "[0, 1, 0]" "\<lambda>n. True" "[7]"]
  by simp

section \<open>Cross-correlation\<close>

lemma corr_cross_inner_fold:
  fixes a b :: "'a::{plus,times} list"
  assumes "k \<le> Suc k_end" "k_end < length a" "0 \<le> int k + lag"
    "int k_end + lag < int (length b)" "k_end < 2 ^ 63" "length b < 2 ^ 63"
  shows "corr_cross_inner a b lag k_end k ac
         = Some (foldl (\<lambda>s j. s + a ! j * b ! nat (int j + lag)) ac [k..<Suc k_end])"
  using assms
proof (induction a b lag k_end k ac rule: corr_cross_inner.induct)
  case (1 a b lag k_end k ac)
  show ?case
  proof (cases "k \<le> k_end")
    case True
    have ra: "rd a k = Some (a ! k)" using True "1.prems" by (simp add: rd_def)
    have tl: "to_long k = int k" using True "1.prems" by (intro to_long_id) simp
    have ts: "to_size (int k + lag) = nat (int k + lag)"
      using True "1.prems" by (intro to_size_id) simp_all
    have rb: "rd b (to_size (to_long k + lag)) = Some (b ! nat (int k + lag))"
      using True "1.prems" tl ts by (simp add: rd_def nat_less_iff)
    have "corr_cross_inner a b lag k_end (Suc k) (ac + a ! k * b ! nat (int k + lag))
          = Some (foldl (\<lambda>s j. s + a ! j * b ! nat (int j + lag))
                    (ac + a ! k * b ! nat (int k + lag)) [Suc k..<Suc k_end])"
      using True "1.prems" by (intro "1.IH"[OF True ra rb]) simp_all
    moreover have "[k..<Suc k_end] = k # [Suc k..<Suc k_end]"
      using True by (simp add: upt_conv_Cons)
    ultimately show ?thesis
      using True ra rb
      by (subst corr_cross_inner.simps) simp
  next
    case False
    with "1.prems" show ?thesis
      by (subst corr_cross_inner.simps) simp
  qed
qed

text \<open>The bounds computed by one turn of the outer loop, when the first sequence is not
  the longer one.\<close>

lemma corr_cross_bounds:
  fixes la lb n :: nat
  assumes "0 < la" "la \<le> lb" "la + lb < 2 ^ 63" "n < la + lb - 1"
    and lag_def: "lag = to_long n - to_long (lb - 1)"
    and k_start_def: "k_start = (if lag < 0 then to_size (- lag) else 0)"
    and k_end_def: "k_end = (if to_long (la - 1) + lag > to_long (lb - 1)
                      then (let ke = to_size (to_long (lb - 1) - lag)
                            in if to_long ke < 0 then 0 else ke)
                      else la - 1)"
  shows "lag = int n - (int lb - 1)"
    and "k_end < la"
    and "int k_end + lag < int lb"
    and "0 \<le> int k_start + lag"
    and "{k. k < la \<and> 0 \<le> int k + lag \<and> int k + lag < int lb}
         = (if k_start \<le> k_end then {k_start..k_end} else {})"
proof -
  have n63: "n < 2 ^ 63" "lb - 1 < 2 ^ 63" "la - 1 < 2 ^ 63" using assms(1-4) by simp_all
  show lag: "lag = int n - (int lb - 1)"
    using n63 assms(1,2) by (simp add: lag_def to_long_id of_nat_diff)
  have ks: "k_start = nat (- lag)"
  proof (cases "lag < 0")
    case True
    have "- lag < 2 ^ 64" using lag assms(1-4) by simp
    with True show ?thesis by (simp add: k_start_def to_size_id)
  next
    case False
    then show ?thesis by (simp add: k_start_def)
  qed
  have ke: "int k_end = min (int la - 1) (int lb - 1 - lag)"
  proof (cases "to_long (la - 1) + lag > to_long (lb - 1)")
    case True
    then have gt: "int la - 1 + lag > int lb - 1"
      using n63 assms(1,2) by (simp add: to_long_id of_nat_diff)
    have nonneg: "0 \<le> int lb - 1 - lag" using lag assms(1-4) by simp
    have "int lb - 1 - lag < int la" using gt by linarith
    then have lt: "int lb - 1 - lag < 2 ^ 63" using assms(3) by simp
    have e1: "to_size (to_long (lb - 1) - lag) = nat (int lb - 1 - lag)"
      using n63 assms(1,2) nonneg lt by (simp add: to_long_id to_size_id of_nat_diff)
    have e2: "to_long (nat (int lb - 1 - lag)) = int lb - 1 - lag"
      using nonneg lt by (simp add: to_long_id nat_less_iff)
    have "k_end = nat (int lb - 1 - lag)"
      using True e1 e2 nonneg by (simp add: k_end_def Let_def)
    then show ?thesis using gt nonneg by simp
  next
    case False
    then have "int la - 1 + lag \<le> int lb - 1"
      using n63 assms(1,2) by (simp add: to_long_id of_nat_diff)
    moreover have "k_end = la - 1" using False by (simp add: k_end_def)
    ultimately show ?thesis using assms(1) by (simp add: of_nat_diff)
  qed
  show "k_end < la" using ke assms(1) by linarith
  show "int k_end + lag < int lb" using ke by linarith
  show "0 \<le> int k_start + lag" using ks by simp
  show "{k. k < la \<and> 0 \<le> int k + lag \<and> int k + lag < int lb}
         = (if k_start \<le> k_end then {k_start..k_end} else {})"
    using ks ke assms(1) by (auto; linarith)
qed

lemma corr_cross_outer_acc:
  fixes a b :: "'a::{zero,plus,times} list"
  assumes "0 < length a" "length a \<le> length b" "length a + length b < 2 ^ 63"
    "lr = length a + length b - 1" "length out = lr" "n \<le> lr"
  shows "corr_cross_outer a b lr n out = Some (take n out @ map (corr_cross_acc a b) [n..<lr])"
  using assms
proof (induction a b lr n out rule: corr_cross_outer.induct)
  case (1 a b lr n out)
  show ?case
  proof (cases "n < lr")
    case True
    define lag where "lag = to_long n - to_long (length b - 1)"
    define ks where "ks = (if lag < 0 then to_size (- lag) else 0)"
    define ke where "ke = (if to_long (length a - 1) + lag > to_long (length b - 1)
                      then (let ke = to_size (to_long (length b - 1) - lag)
                            in if to_long ke < 0 then 0 else ke)
                      else length a - 1)"
    have n: "n < length a + length b - 1" using True "1.prems"(4) by simp
    note bnd = corr_cross_bounds[OF "1.prems"(1) "1.prems"(2) "1.prems"(3) n lag_def ks_def ke_def]
    let ?P = "\<lambda>k. 0 \<le> int k + lag \<and> int k + lag < int (length b)"
    let ?f = "\<lambda>s j. s + a ! j * b ! nat (int j + lag)"
    have flt: "filter ?P [0..<length a] = [ks..<Suc ke]"
    proof (rule filter_upt_interval)
      fix k assume k: "k < length a"
      have "k \<in> {k. k < length a \<and> ?P k} \<longleftrightarrow> k \<in> (if ks \<le> ke then {ks..ke} else {})"
        by (simp only: bnd(5))
      then show "?P k \<longleftrightarrow> ks \<le> k \<and> k \<le> ke"
        using k by (auto split: if_splits)
    next
      show "ke < length a" by (rule bnd(2))
    qed
    have acc: "corr_cross_acc a b n = foldl ?f 0 [ks..<Suc ke]"
      unfolding corr_cross_acc_def bnd(1)[symmetric] flt ..
    have inner: "(if ks \<le> ke then corr_cross_inner a b lag ke ks 0 else Some 0)
                 = Some (corr_cross_acc a b n)"
    proof (cases "ks \<le> ke")
      case le: True
      have k63: "ke < 2 ^ 63" using bnd(2) "1.prems"(3) by linarith
      have b63: "length b < 2 ^ 63" using "1.prems"(3) by linarith
      have "ks \<le> Suc ke" using le by simp
      then have "corr_cross_inner a b lag ke ks 0 = Some (foldl ?f 0 [ks..<Suc ke])"
        using bnd(2) bnd(4) bnd(3) k63 b63 by (rule corr_cross_inner_fold)
      then show ?thesis using le acc by simp
    next
      case gt: False
      then have "[ks..<Suc ke] = []" by simp
      then show ?thesis using gt acc by simp
    qed
    have w: "wr out n (corr_cross_acc a b n) = Some (out[n := corr_cross_acc a b n])"
      using True "1.prems"(5) by (simp add: wr_def)
    have step: "corr_cross_outer a b lr n out
          = (case (if ks \<le> ke then corr_cross_inner a b lag ke ks 0 else Some 0) of
               None \<Rightarrow> None
             | Some ac \<Rightarrow>
                 (case wr out n ac of
                    None \<Rightarrow> None
                  | Some out' \<Rightarrow> corr_cross_outer a b lr (Suc n) out'))"
      unfolding ke_def ks_def lag_def
      by (subst corr_cross_outer.simps) (simp only: True if_True Let_def)
    have len': "length (out[n := corr_cross_acc a b n]) = lr" using "1.prems"(5) by simp
    have sn: "Suc n \<le> lr" using True by simp
    have "corr_cross_outer a b lr (Suc n) (out[n := corr_cross_acc a b n])
          = Some (take (Suc n) (out[n := corr_cross_acc a b n])
                  @ map (corr_cross_acc a b) [Suc n..<lr])"
      by (rule "1.IH"[OF True refl refl refl refl refl refl
            inner[unfolded ke_def ks_def lag_def] w
            "1.prems"(1) "1.prems"(2) "1.prems"(3) "1.prems"(4) len' sn])
    then show ?thesis
      unfolding step inner
      using True "1.prems"(5) by (simp add: w take_Suc_update upt_conv_Cons)
  next
    case False
    with "1.prems" show ?thesis
      by (subst corr_cross_outer.simps) simp
  qed
qed

lemma corr_cross_acc_sum:
  fixes a b :: "'a::semiring_0 list"
  shows "corr_cross_acc a b n
         = (\<Sum>k \<in> {k. k < length a \<and> 0 \<le> int k + (int n - (int (length b) - 1))
                      \<and> int k + (int n - (int (length b) - 1)) < int (length b)}.
              a ! k * b ! nat (int k + (int n - (int (length b) - 1))))"
proof -
  have "set (filter (\<lambda>k. 0 \<le> int k + (int n - (int (length b) - 1))
                    \<and> int k + (int n - (int (length b) - 1)) < int (length b)) [0..<length a])
        = {k. k < length a \<and> 0 \<le> int k + (int n - (int (length b) - 1))
                      \<and> int k + (int n - (int (length b) - 1)) < int (length b)}"
    by auto
  then show ?thesis
    unfolding corr_cross_acc_def
    by (subst foldl_add_sum) simp_all
qed

text \<open>
  Claim C2, as the code has it.  \<^verbatim>\<open>seq_corr_cross\<close> gives an empty output when either
  input is empty.  When \<open>a\<close> is not longer than \<open>b\<close> (the output being allocated) it
  succeeds with \<open>length a + length b - 1\<close> samples, sample \<open>n\<close> being, for
  \<open>lag = n - (length b - 1)\<close>, the sum of \<open>a[k] * b[k + lag]\<close>, accumulated from \<open>0\<close> in
  ascending order, over the \<open>k\<close> for which \<open>k\<close> is an index of \<open>a\<close> and \<open>k + lag\<close> an index
  of \<open>b\<close>, in any sample arithmetic, and no read leaves either array; and
  \<open>corr-cross([1,2,3],[0,1,0]) = [0,3,2,1,0]\<close>.
\<close>

theorem C2_corr_cross_amended:
  fixes a b :: "'a::{zero,plus,times} list"
  shows "(a = [] \<or> b = []
            \<longrightarrow> seq_corr_cross mem (Some a) (Some b) (Some out) = Returns (0, Some []))
       \<and> (a \<noteq> [] \<and> length a \<le> length b \<and> length a + length b < 2 ^ 63
          \<and> mem (length a + length b - 1)
            \<longrightarrow> (\<exists>y. seq_corr_cross mem (Some a) (Some b) (Some out) = Returns (0, Some y)
                   \<and> length y = length a + length b - 1
                   \<and> (\<forall>n < length y.
                        y ! n =
                          foldl (\<lambda>s k. s + a ! k * b ! nat (int k + (int n - (int (length b) - 1))))
                            0
                            (filter (\<lambda>k. 0 \<le> int k + (int n - (int (length b) - 1))
                                         \<and> int k + (int n - (int (length b) - 1))
                                             < int (length b))
                               [0..<length a]))))
       \<and> seq_corr_cross (\<lambda>n. True) (Some [1, 2, 3]) (Some [0, 1, 0]) (Some [])
           = Returns (0, Some [0, 3, 2, 1, 0 :: real])"
proof (intro conjI impI)
  assume "a = [] \<or> b = []"
  then show "seq_corr_cross mem (Some a) (Some b) (Some out) = Returns (0, Some [])"
    by (auto simp: seq_corr_cross_def seq_init_def)
next
  assume h: "a \<noteq> [] \<and> length a \<le> length b \<and> length a + length b < 2 ^ 63
             \<and> mem (length a + length b - 1)"
  let ?lr = "length a + length b - 1"
  let ?y = "map (corr_cross_acc a b) [0..<?lr]"
  have "?lr < 2 ^ 63" using h by linarith
  then have lr: "size_wrap ?lr = ?lr" by (intro size_wrap_id) simp
  have nb: "b \<noteq> []" using h by (cases a; cases b) simp_all
  have pos: "0 < ?lr" using h nb by (cases a; cases b) simp_all
  have "corr_cross_outer a b ?lr 0 (replicate ?lr 0) = Some ?y"
    using h by (subst corr_cross_outer_acc) simp_all
  then have "seq_corr_cross mem (Some a) (Some b) (Some out) = Returns (0, Some ?y)"
    using h lr pos nb by (simp add: seq_corr_cross_def seq_init_def)
  moreover have "\<forall>n < length ?y.
      ?y ! n = foldl (\<lambda>s k. s + a ! k * b ! nat (int k + (int n - (int (length b) - 1)))) 0
                 (filter (\<lambda>k. 0 \<le> int k + (int n - (int (length b) - 1))
                              \<and> int k + (int n - (int (length b) - 1)) < int (length b))
                    [0..<length a])"
    by (simp add: corr_cross_acc_def)
  ultimately show "\<exists>y. seq_corr_cross mem (Some a) (Some b) (Some out) = Returns (0, Some y)
      \<and> length y = length a + length b - 1
      \<and> (\<forall>n < length y.
            y ! n = foldl (\<lambda>s k. s + a ! k * b ! nat (int k + (int n - (int (length b) - 1)))) 0
                      (filter (\<lambda>k. 0 \<le> int k + (int n - (int (length b) - 1))
                                   \<and> int k + (int n - (int (length b) - 1)) < int (length b))
                         [0..<length a]))"
    by simp
next
  show "seq_corr_cross (\<lambda>n. True) (Some [1, 2, 3]) (Some [0, 1, 0]) (Some [])
           = Returns (0, Some [0, 3, 2, 1, 0 :: real])"
    by (simp add: seq_corr_cross_def ops_eval corr_cross_inner.simps corr_cross_outer.simps)
qed

theorem C2_witness:
  "[1, 2, 3 :: real] \<noteq> [] \<and> length [1, 2, 3 :: real] \<le> length [0, 1, 0 :: real]
   \<and> (\<exists>y. seq_corr_cross (\<lambda>n. True) (Some [1, 2, 3 :: real]) (Some [0, 1, 0]) (Some [7])
              = Returns (0, Some y)
          \<and> length y = length [1, 2, 3 :: real] + length [0, 1, 0 :: real] - 1)
   \<and> seq_corr_cross (\<lambda>n. True) (Some [1, 2, 3 :: real]) (Some []) (Some [7]) = Returns (0, Some [])"
  using C2_corr_cross_amended [of "[1, 2, 3 :: real]" "[0, 1, 0]" "\<lambda>n. True" "[7]"]
        C2_corr_cross_amended [of "[1, 2, 3 :: real]" "[]" "\<lambda>n. True" "[7]"]
  by auto

text \<open>The value that the specification's example gives for
  \<open>corr-cross([1,2,3],[0,1,0])\<close> is not what the code (and the defining sum) produce.  And
  when \<open>a\<close> is longer than \<open>b\<close> the clamp \<^verbatim>\<open>k_end = 0\<close> lets the inner loop run once with
  \<^verbatim>\<open>k + lag\<close> beyond the end of \<open>b\<close>: for \<open>a = [1,2,3]\<close>, \<open>b = [1]\<close> and \<open>n = 1\<close> the
  code reads \<^verbatim>\<open>b[1]\<close>.\<close>

theorem C2_counterexample:
  "seq_corr_cross (\<lambda>n. True) (Some [1, 2, 3]) (Some [0, 1, 0]) (Some [])
     \<noteq> Returns (0, Some [0, 1, 2, 3, 0 :: real])
   \<and> seq_corr_cross (\<lambda>n. True) (Some [1, 2, 3 :: real]) (Some [1]) (Some [])
     = Undefined_Behaviour"
  by (simp add: seq_corr_cross_def ops_eval corr_cross_inner.simps corr_cross_outer.simps)

section \<open>Normalised correlation of two windows\<close>

lemma seq_window_get_in_range:
  assumes "window_inv ww" "w_buf ww = Some b" "i < count ww"
  shows "(start ww + i) mod capacity ww < length b"
    and "seq_window_get (Some ww) i = Returns (b ! ((start ww + i) mod capacity ww))"
proof -
  from assms(1) have inv: "length b = capacity ww" "0 < capacity ww" "capacity ww < 2 ^ 63"
    "count ww \<le> capacity ww" "start ww < capacity ww"
    by (simp_all add: window_inv_def assms(2))
  show "(start ww + i) mod capacity ww < length b"
    using inv by simp
  have "size_wrap (start ww + i) = start ww + i"
    using inv assms(3) by (intro size_wrap_id) simp
  then show "seq_window_get (Some ww) i = Returns (b ! ((start ww + i) mod capacity ww))"
    using assms(2,3) inv by (simp add: seq_window_get_def rd_def)
qed

lemma seq_window_get_recent:
  assumes "window_inv ww" "w_buf ww = Some b" "L \<le> count ww" "i < L"
  shows "seq_window_get (Some ww) (size_wrap ((if count ww > L then count ww - L else 0) + i))
         = Returns (recent L ww ! i)"
proof -
  let ?off = "if count ww > L then count ww - L else 0"
  have off: "?off = count ww - L" by simp
  have "count ww - L + i < count ww" using assms(3,4) by linarith
  then have lt: "?off + i < count ww" using off by simp
  from assms(1) have "count ww \<le> capacity ww" "capacity ww < 2 ^ 63"
    by (simp_all add: window_inv_def assms(2))
  then have "size_wrap (?off + i) = ?off + i" using lt by (intro size_wrap_id) simp
  moreover have "seq_window_get (Some ww) (?off + i)
                 = Returns (b ! ((start ww + (?off + i)) mod capacity ww))"
    using assms(1,2) lt by (rule seq_window_get_in_range(2))
  moreover have "recent L ww ! i = b ! ((start ww + (?off + i)) mod capacity ww)"
    using lt assms(2,3,4) by (simp add: recent_def window_samples_def)
  ultimately show ?thesis by simp
qed

lemma length_recent:
  assumes "w_buf ww = Some b" "L \<le> count ww"
  shows "length (recent L ww) = L"
  using assms by (simp add: recent_def window_samples_def)





lemma upt_0_3: "[0..<3] = [0, 1, 2]"
  by (simp add: numeral_3_eq_3)


section \<open>The normalised correlation in exact arithmetic\<close>

lemma corr_sums_eq:
  fixes xs ys :: "real list"
  assumes "\<And>j. j < L \<Longrightarrow> seq_window_get wa (size_wrap (offset_a + j)) = Returns (xs ! j)"
    and "\<And>j. j < L \<Longrightarrow> seq_window_get wb (size_wrap (offset_b + j)) = Returns (ys ! j)"
    and "i \<le> L"
  shows "corr_sums wa wb offset_a offset_b L i sum_x sum_y
         = Returns (sum_x + (\<Sum>j = i..<L. xs ! j), sum_y + (\<Sum>j = i..<L. ys ! j))"
  using assms(3)
proof (induction "L - i" arbitrary: i sum_x sum_y)
  case 0
  then show ?case by (subst corr_sums.simps) simp
next
  case (Suc n)
  then have lt: "i < L" by simp
  have "corr_sums wa wb offset_a offset_b L (Suc i) (sum_x + xs ! i) (sum_y + ys ! i)
        = Returns (sum_x + xs ! i + (\<Sum>j = Suc i..<L. xs ! j),
                   sum_y + ys ! i + (\<Sum>j = Suc i..<L. ys ! j))"
    using Suc.hyps(2) lt by (intro Suc.hyps(1)) simp_all
  then show ?case
    using lt assms(1)[OF lt] assms(2)[OF lt]
    by (subst corr_sums.simps) (simp add: sum.atLeast_Suc_lessThan add.assoc)
qed

lemma corr_devs_eq:
  fixes xs ys :: "real list"
  assumes "\<And>j. j < L \<Longrightarrow> seq_window_get wa (size_wrap (offset_a + j)) = Returns (xs ! j)"
    and "\<And>j. j < L \<Longrightarrow> seq_window_get wb (size_wrap (offset_b + j)) = Returns (ys ! j)"
    and "i \<le> L"
  shows "corr_devs wa wb offset_a offset_b L mx my i num sx2 sy2
         = Returns (num + (\<Sum>j = i..<L. (xs ! j - mx) * (ys ! j - my)),
                    sx2 + (\<Sum>j = i..<L. (xs ! j - mx) * (xs ! j - mx)),
                    sy2 + (\<Sum>j = i..<L. (ys ! j - my) * (ys ! j - my)))"
  using assms(3)
proof (induction "L - i" arbitrary: i num sx2 sy2)
  case 0
  then show ?case by (subst corr_devs.simps) simp
next
  case (Suc n)
  then have lt: "i < L" by simp
  let ?dx = "xs ! i - mx" and ?dy = "ys ! i - my"
  have "corr_devs wa wb offset_a offset_b L mx my (Suc i)
          (num + ?dx * ?dy) (sx2 + ?dx * ?dx) (sy2 + ?dy * ?dy)
        = Returns (num + ?dx * ?dy + (\<Sum>j = Suc i..<L. (xs ! j - mx) * (ys ! j - my)),
                   sx2 + ?dx * ?dx + (\<Sum>j = Suc i..<L. (xs ! j - mx) * (xs ! j - mx)),
                   sy2 + ?dy * ?dy + (\<Sum>j = Suc i..<L. (ys ! j - my) * (ys ! j - my)))"
    using Suc.hyps(2) lt by (intro Suc.hyps(1)) simp_all
  then show ?case
    using lt assms(1)[OF lt] assms(2)[OF lt]
    by (subst corr_devs.simps) (simp add: sum.atLeast_Suc_lessThan add.assoc Let_def)
qed

lemma dev_prod_self_nonneg: "0 \<le> dev_prod xs xs"
  by (simp add: dev_prod_def sum_nonneg)

text \<open>In exact (real) arithmetic the sums of squared deviations are never negative and
  the denominator is zero only when one of them is: \<^verbatim>\<open>seq_corr_window_norm\<close> fails exactly
  when a window is empty or the squared deviations of either side's aligned samples sum
  to zero (zero variance), and otherwise succeeds with Pearson's coefficient.\<close>

lemma corr_window_norm_exact:
  fixes a b :: "real seq_window_t"
  assumes inv: "window_inv a" "window_inv b" and init: "w_buf a \<noteq> None" "w_buf b \<noteq> None"
  shows "(count a = 0 \<or> count b = 0
          \<or> dev_prod (recent (min (count a) (count b)) a) (recent (min (count a) (count b)) a) = 0
          \<or> dev_prod (recent (min (count a) (count b)) b) (recent (min (count a) (count b)) b) = 0
            \<longrightarrow> seq_corr_window_norm sqrt real (Some a) (Some b) True = Returns (- 1, None))
       \<and> (\<not> (count a = 0 \<or> count b = 0
          \<or> dev_prod (recent (min (count a) (count b)) a) (recent (min (count a) (count b)) a) = 0
          \<or> dev_prod (recent (min (count a) (count b)) b) (recent (min (count a) (count b)) b) = 0)
            \<longrightarrow> seq_corr_window_norm sqrt real (Some a) (Some b) True
                = Returns (0, Some (pearson (recent (min (count a) (count b)) a)
                                            (recent (min (count a) (count b)) b))))"
proof (cases "count a = 0 \<or> count b = 0")
  case True
  then show ?thesis by (auto simp: seq_corr_window_norm_def)
next
  case False
  obtain ba bb where ba: "w_buf a = Some ba" and bb: "w_buf b = Some bb"
    using init by auto
  have cap: "capacity a \<noteq> 0" "capacity b \<noteq> 0"
    using inv ba bb by (simp_all add: window_inv_def)
  define L where "L = (if count a < count b then count a else count b)"
  define offa where "offa = (if count a > L then count a - L else 0)"
  define offb where "offb = (if count b > L then count b - L else 0)"
  have Lmin: "L = min (count a) (count b)" by (simp add: L_def min_def)
  have Lpos: "0 < L" "L \<le> count a" "L \<le> count b" using False by (simp_all add: Lmin)
  let ?xs = "recent L a" and ?ys = "recent L b"
  have lx: "length ?xs = L" using ba Lpos(2) by (rule length_recent)
  have ly: "length ?ys = L" using bb Lpos(3) by (rule length_recent)
  have ga: "seq_window_get (Some a) (size_wrap (offa + j)) = Returns (?xs ! j)" if "j < L" for j
    unfolding offa_def using inv(1) ba Lpos(2) that by (rule seq_window_get_recent)
  have gb: "seq_window_get (Some b) (size_wrap (offb + j)) = Returns (?ys ! j)" if "j < L" for j
    unfolding offb_def using inv(2) bb Lpos(3) that by (rule seq_window_get_recent)
  have body: "seq_corr_window_norm sqrt real (Some a) (Some b) True
      = (case corr_sums (Some a) (Some b) offa offb L 0 0 0 of
           Undefined_Behaviour \<Rightarrow> Undefined_Behaviour
         | Returns (sum_x, sum_y) \<Rightarrow>
             (case corr_devs (Some a) (Some b) offa offb L (sum_x / real L) (sum_y / real L)
                     0 0 0 0 of
                Undefined_Behaviour \<Rightarrow> Undefined_Behaviour
              | Returns (num, sx2, sy2) \<Rightarrow>
                  if sx2 \<le> 0 \<or> sy2 \<le> 0 then Returns (- 1, None)
                  else if sqrt (sx2 * sy2) = 0 then Returns (- 1, None)
                  else Returns (0, Some (num / sqrt (sx2 * sy2)))))"
    unfolding offa_def offb_def L_def seq_corr_window_norm_def Let_def
    using False ba bb cap by simp
  have sums: "corr_sums (Some a) (Some b) offa offb L 0 0 0
              = Returns (mean ?xs * real L, mean ?ys * real L)"
  proof -
    have "corr_sums (Some a) (Some b) offa offb L 0 0 0
          = Returns (0 + (\<Sum>j = 0..<L. ?xs ! j), 0 + (\<Sum>j = 0..<L. ?ys ! j))"
      using ga gb by (intro corr_sums_eq) simp_all
    then show ?thesis using Lpos(1) by (simp add: mean_def lx ly atLeast0LessThan)
  qed
  have devs: "corr_devs (Some a) (Some b) offa offb L (mean ?xs) (mean ?ys) 0 0 0 0
              = Returns (dev_prod ?xs ?ys, dev_prod ?xs ?xs, dev_prod ?ys ?ys)"
  proof -
    have "corr_devs (Some a) (Some b) offa offb L (mean ?xs) (mean ?ys) 0 0 0 0
          = Returns (0 + (\<Sum>j = 0..<L. (?xs ! j - mean ?xs) * (?ys ! j - mean ?ys)),
                     0 + (\<Sum>j = 0..<L. (?xs ! j - mean ?xs) * (?xs ! j - mean ?xs)),
                     0 + (\<Sum>j = 0..<L. (?ys ! j - mean ?ys) * (?ys ! j - mean ?ys)))"
      using ga gb by (intro corr_devs_eq) simp_all
    then show ?thesis by (simp add: dev_prod_def lx ly atLeast0LessThan)
  qed
  have res: "seq_corr_window_norm sqrt real (Some a) (Some b) True
      = (if dev_prod ?xs ?xs \<le> 0 \<or> dev_prod ?ys ?ys \<le> 0 then Returns (- 1, None)
         else if sqrt (dev_prod ?xs ?xs * dev_prod ?ys ?ys) = 0 then Returns (- 1, None)
         else Returns (0, Some (dev_prod ?xs ?ys / sqrt (dev_prod ?xs ?xs * dev_prod ?ys ?ys))))"
    using Lpos(1) by (simp add: body sums devs)
  have zx: "dev_prod ?xs ?xs \<le> 0 \<longleftrightarrow> dev_prod ?xs ?xs = 0"
    using dev_prod_self_nonneg[of ?xs] by linarith
  have zy: "dev_prod ?ys ?ys \<le> 0 \<longleftrightarrow> dev_prod ?ys ?ys = 0"
    using dev_prod_self_nonneg[of ?ys] by linarith
  show ?thesis
    using False unfolding Lmin[symmetric] res zx zy
    by (auto simp: pearson_def)
qed

lemma sum_lessThan_3: "(\<Sum>i < (3::nat). f i) = f 0 + f 1 + (f 2 :: real)"
  by (simp add: numeral_3_eq_3 numeral_2_eq_2)

lemma corr_window_norm_exact_ramps:
  "window_inv \<lparr>w_buf = Some [1, 2, 3 :: real], capacity = 3, start = 0, count = 3\<rparr>
   \<and> window_inv \<lparr>w_buf = Some [2, 4, 6 :: real], capacity = 3, start = 0, count = 3\<rparr>
   \<and> window_inv \<lparr>w_buf = Some [5, 5, 5 :: real], capacity = 3, start = 0, count = 3\<rparr>
   \<and> seq_corr_window_norm sqrt real
         (Some \<lparr>w_buf = Some [1, 2, 3], capacity = 3, start = 0, count = 3\<rparr>)
         (Some \<lparr>w_buf = Some [2, 4, 6], capacity = 3, start = 0, count = 3\<rparr>) True
       = Returns (0, Some (pearson [1, 2, 3] [2, 4, 6]))
   \<and> seq_corr_window_norm sqrt real
         (Some \<lparr>w_buf = Some [5, 5, 5], capacity = 3, start = 0, count = 3\<rparr>)
         (Some \<lparr>w_buf = Some [2, 4, 6], capacity = 3, start = 0, count = 3\<rparr>) True
       = Returns (- 1, None)"
proof -
  let ?A = "\<lparr>w_buf = Some [1, 2, 3 :: real], capacity = 3, start = 0, count = 3\<rparr>"
  let ?B = "\<lparr>w_buf = Some [2, 4, 6 :: real], capacity = 3, start = 0, count = 3\<rparr>"
  let ?F = "\<lparr>w_buf = Some [5, 5, 5 :: real], capacity = 3, start = 0, count = 3\<rparr>"
  have iA: "window_inv ?A" and iB: "window_inv ?B" and iF: "window_inv ?F"
    by (simp_all add: window_inv_def)
  have rA: "recent 3 ?A = [1, 2, 3]" and rB: "recent 3 ?B = [2, 4, 6]"
    and rF: "recent 3 ?F = [5, 5, 5]"
    by (simp_all add: recent_def window_samples_def upt_0_3)
  have dA: "dev_prod [1, 2, 3] [1, 2, 3] = 2" and dB: "dev_prod [2, 4, 6] [2, 4, 6] = 8"
    and dF: "dev_prod [5, 5, 5] [5, 5, 5] = 0"
    by (simp_all add: dev_prod_def mean_def sum_lessThan_3)
  have "seq_corr_window_norm sqrt real (Some ?A) (Some ?B) True
        = Returns (0, Some (pearson [1, 2, 3] [2, 4, 6]))"
    using corr_window_norm_exact [OF iA iB] by (simp add: rA rB dA dB)
  moreover have "seq_corr_window_norm sqrt real (Some ?F) (Some ?B) True = Returns (- 1, None)"
    using corr_window_norm_exact [OF iF iB] by (simp add: rF rB dF dB)
  ultimately show ?thesis using iA iB iF by simp
qed

lemma pearson_ramps: "pearson [1, 2, 3] [2, 4, 6] = 1"
proof -
  have "dev_prod [1, 2, 3] [2, 4, 6] = 4" "dev_prod [1, 2, 3] [1, 2, 3] = 2"
    "dev_prod [2, 4, 6] [2, 4, 6] = 8"
    by (simp_all add: dev_prod_def mean_def sum_lessThan_3)
  moreover have "sqrt 16 = 4" by (rule real_sqrt_unique) simp_all
  ultimately show ?thesis by (simp add: pearson_def)
qed


section \<open>The normalised correlation in double arithmetic\<close>





section \<open>The streams in closed form\<close>

lemma remaining_update_same: "remaining s = r \<Longrightarrow> s\<lparr>remaining := r\<rparr> = s"
  by auto

lemma flush_loop_zeros:
  assumes "active s" "op s = SEQ_OP_PAD_FRONT \<or> op s = SEQ_OP_UPSAMPLE"
  shows "flush_loop (Some s) outs
         = Returns (SEQ_OK, Some (s\<lparr>remaining := 0\<rparr>), outs @ replicate (remaining s) 0)"
  using assms
proof (induction "remaining s" arbitrary: s outs)
  case 0
  then have "seq_stream_step (Some s) False 0 True True = Returns (SEQ_OK, Some s, None, Some False)"
    by (auto simp: seq_stream_step_def)
  moreover have "s\<lparr>remaining := 0\<rparr> = s" using 0 by (intro remaining_update_same) simp
  ultimately show ?case using 0 by (subst flush_loop.simps) simp
next
  case (Suc r)
  let ?s' = "s\<lparr>remaining := r\<rparr>"
  have step: "seq_stream_step (Some s) False 0 True True
              = Returns (SEQ_OK, Some ?s', Some 0, Some True)"
    using Suc.prems Suc.hyps(2)[symmetric] by (auto simp: seq_stream_step_def)
  have "flush_loop (Some ?s') (outs @ [0])
        = Returns (SEQ_OK, Some (?s'\<lparr>remaining := 0\<rparr>), (outs @ [0]) @ replicate (remaining ?s') 0)"
    using Suc.prems by (intro Suc.hyps(1)) simp_all
  then show ?case
    using step Suc.hyps(2)[symmetric] by (subst flush_loop.simps) (simp add: replicate_append_same)
qed

lemma flush_loop_none:
  assumes "active s"
    "op s = SEQ_OP_DELAY \<or> op s = SEQ_OP_DOWNSAMPLE \<or> op s = SEQ_OP_DIFF \<or> op s = SEQ_OP_CUMSUM"
  shows "flush_loop (Some s) outs = Returns (SEQ_OK, Some s, outs)"
proof -
  have "seq_stream_step (Some s) False 0 True True = Returns (SEQ_OK, Some s, None, Some False)"
    using assms by (auto simp: seq_stream_step_def)
  then show ?thesis by (subst flush_loop.simps) simp
qed

lemma pad_front_tokens:
  assumes "active s" "op s = SEQ_OP_PAD_FRONT" "remaining s = 0"
  shows "stream_tokens (Some s) xs outs = Returns (0, outs @ xs)"
proof (induction xs arbitrary: outs)
  case Nil
  show ?case by simp
next
  case (Cons x xs)
  have step: "seq_stream_step (Some s) True x True True = Returns (SEQ_OK, Some s, Some x, Some True)"
    using assms by (simp add: seq_stream_step_def)
  have bk: "s\<lparr>remaining := 0\<rparr> = s" using assms(3) by (rule remaining_update_same)
  have fl: "flush_loop (Some s) (outs @ [x]) = Returns (SEQ_OK, Some s, outs @ [x])"
    using flush_loop_zeros[of s "outs @ [x]"] assms bk by simp
  show ?case using step fl Cons.IH[of "outs @ [x]"] by simp
qed

lemma upsample_tokens:
  assumes "active s" "op s = SEQ_OP_UPSAMPLE" "remaining s = 0" "param_main s = f" "0 < f"
  shows "stream_tokens (Some s) xs outs = Returns (0, outs @ upsample_list f xs)"
proof (induction xs arbitrary: outs)
  case Nil
  show ?case by (simp add: upsample_list_def)
next
  case (Cons x xs)
  let ?s' = "s\<lparr>remaining := f - 1\<rparr>"
  have bk: "?s'\<lparr>remaining := 0\<rparr> = s"
    using remaining_update_same[OF assms(3)] by simp
  have step: "seq_stream_step (Some s) True x True True
              = Returns (SEQ_OK, Some ?s', Some x, Some True)"
  proof (cases "1 < f")
    case True
    then show ?thesis using assms by (simp add: seq_stream_step_def)
  next
    case False
    then have "f = 1" using assms(5) by simp
    then have "?s' = s" using assms(3) by (intro remaining_update_same) simp
    then show ?thesis using assms \<open>f = 1\<close> by (simp add: seq_stream_step_def)
  qed
  have fl: "flush_loop (Some ?s') (outs @ [x])
            = Returns (SEQ_OK, Some s, (outs @ [x]) @ replicate (f - 1) 0)"
    using flush_loop_zeros[of ?s' "outs @ [x]"] assms(1,2) bk by simp
  have "stream_tokens (Some s) xs ((outs @ [x]) @ replicate (f - 1) 0)
        = Returns (0, ((outs @ [x]) @ replicate (f - 1) 0) @ upsample_list f xs)"
    by (rule Cons.IH)
  then show ?case using step fl by (simp add: upsample_list_Cons)
qed

lemma delay0_tokens:
  assumes "active s" "op s = SEQ_OP_DELAY" "param_main s = 0"
  shows "stream_tokens (Some s) xs outs = Returns (0, outs @ xs)"
proof (induction xs arbitrary: outs)
  case Nil
  show ?case by simp
next
  case (Cons x xs)
  have step: "seq_stream_step (Some s) True x True True = Returns (SEQ_OK, Some s, Some x, Some True)"
    using assms by (simp add: seq_stream_step_def)
  have fl: "flush_loop (Some s) (outs @ [x]) = Returns (SEQ_OK, Some s, outs @ [x])"
    using assms by (intro flush_loop_none) simp_all
  show ?case using step fl Cons.IH[of "outs @ [x]"] by simp
qed

lemma delay_tokens:
  assumes "active s" "op s = SEQ_OP_DELAY" "param_main s = d" "0 < d" "buf_size s = d"
    "length (buf s) = d" "buf_head s < d"
  shows "stream_tokens (Some s) xs outs
         = Returns (0, outs @ take (length xs)
                                (drop (buf_head s) (buf s) @ take (buf_head s) (buf s) @ xs))"
  using assms
proof (induction xs arbitrary: s outs)
  case Nil
  show ?case by simp
next
  case (Cons x xs)
  let ?B = "buf s" and ?h = "buf_head s"
  let ?h' = "if ?h + 1 \<ge> d then 0 else ?h + 1"
  let ?s' = "s\<lparr>buf := ?B[?h := x], buf_head := ?h'\<rparr>"
  have step: "seq_stream_step (Some s) True x True True
              = Returns (SEQ_OK, Some ?s', Some (?B ! ?h), Some True)"
    using Cons.prems by (simp add: seq_stream_step_def rd_def Let_def)
  have fl: "flush_loop (Some ?s') (outs @ [?B ! ?h]) = Returns (SEQ_OK, Some ?s', outs @ [?B ! ?h])"
    using Cons.prems by (intro flush_loop_none) simp_all
  have ih: "stream_tokens (Some ?s') xs (outs @ [?B ! ?h])
        = Returns (0, (outs @ [?B ! ?h]) @ take (length xs)
                        (drop (buf_head ?s') (buf ?s') @ take (buf_head ?s') (buf ?s') @ xs))"
    using Cons.prems by (intro Cons.IH) simp_all
  have rot: "drop (buf_head ?s') (buf ?s') @ take (buf_head ?s') (buf ?s')
             = drop (Suc ?h) ?B @ take ?h ?B @ [x]"
  proof (cases "?h + 1 \<ge> d")
    case True
    then have hd: "Suc ?h = d" using Cons.prems(7) by simp
    have "?B[?h := x] = take ?h ?B @ [x]"
      using Cons.prems(6) hd by (simp add: upd_conv_take_nth_drop)
    then show ?thesis using True Cons.prems(6) hd by simp
  next
    case False
    then have "Suc ?h < d" by simp
    then show ?thesis
      using False Cons.prems(6) by (simp add: take_Suc_update)
  qed
  have cur: "drop ?h ?B = ?B ! ?h # drop (Suc ?h) ?B"
    using Cons.prems(6,7) by (simp add: Cons_nth_drop_Suc)
  have "(outs @ [?B ! ?h]) @ take (length xs)
            (drop (buf_head ?s') (buf ?s') @ take (buf_head ?s') (buf ?s') @ xs)
        = outs @ take (length (x # xs)) (drop ?h ?B @ take ?h ?B @ x # xs)"
    using rot cur by (metis (no_types, lifting) append.assoc append_Cons append_Nil length_Cons take_Suc_Cons)
  then show ?case using step fl ih by simp
qed

lemma downsample_tokens:
  assumes "active s" "op s = SEQ_OP_DOWNSAMPLE" "param_main s = f" "0 < f"
    "counter s + length xs < 2 ^ 64"
  shows "stream_tokens (Some s) xs outs = Returns (0, outs @ ds_from f (counter s) xs)"
  using assms
proof (induction xs arbitrary: s outs)
  case Nil
  show ?case by simp
next
  case (Cons x xs)
  let ?s' = "s\<lparr>counter := Suc (counter s)\<rparr>"
  let ?o = "if counter s mod f = 0 then [x] else []"
  have cw: "size_wrap (counter s + 1) = Suc (counter s)"
    using Cons.prems(5) by (simp add: size_wrap_id)
  have step: "seq_stream_step (Some s) True x True True
              = Returns (SEQ_OK, Some ?s',
                         (if counter s mod f = 0 then Some x else None),
                         Some (counter s mod f = 0))"
    using Cons.prems cw by (simp add: seq_stream_step_def)
  have fl: "flush_loop (Some ?s') (outs @ ?o) = Returns (SEQ_OK, Some ?s', outs @ ?o)"
    using Cons.prems by (intro flush_loop_none) simp_all
  have "stream_tokens (Some ?s') xs (outs @ ?o)
        = Returns (0, (outs @ ?o) @ ds_from f (counter ?s') xs)"
    using Cons.prems by (intro Cons.IH) simp_all
  then show ?case using step fl by (cases "counter s mod f = 0") simp_all
qed

lemma diff_tokens_last:
  assumes "active s" "op s = SEQ_OP_DIFF" "has_last s"
  shows "stream_tokens (Some s) xs outs = Returns (0, outs @ diffs (last_x s) xs)"
  using assms
proof (induction xs arbitrary: s outs)
  case Nil
  show ?case by simp
next
  case (Cons x xs)
  let ?s' = "s\<lparr>last_x := x\<rparr>"
  have step: "seq_stream_step (Some s) True x True True
              = Returns (SEQ_OK, Some ?s', Some (x - last_x s), Some True)"
    using Cons.prems by (simp add: seq_stream_step_def)
  have fl: "flush_loop (Some ?s') (outs @ [x - last_x s])
            = Returns (SEQ_OK, Some ?s', outs @ [x - last_x s])"
    using Cons.prems by (intro flush_loop_none) simp_all
  have "stream_tokens (Some ?s') xs (outs @ [x - last_x s])
        = Returns (0, (outs @ [x - last_x s]) @ diffs (last_x ?s') xs)"
    using Cons.prems by (intro Cons.IH) simp_all
  then show ?case using step fl by simp
qed

lemma diff_tokens:
  assumes "active s" "op s = SEQ_OP_DIFF" "\<not> has_last s"
  shows "stream_tokens (Some s) xs outs = Returns (0, outs @ diff_list xs)"
proof (cases xs)
  case Nil
  then show ?thesis by (simp add: diff_list_def)
next
  case (Cons x ys)
  let ?s' = "s\<lparr>last_x := x, has_last := True\<rparr>"
  have step: "seq_stream_step (Some s) True x True True
              = Returns (SEQ_OK, Some ?s', Some x, Some True)"
    using assms by (simp add: seq_stream_step_def)
  have fl: "flush_loop (Some ?s') (outs @ [x]) = Returns (SEQ_OK, Some ?s', outs @ [x])"
    using assms by (intro flush_loop_none) simp_all
  have "stream_tokens (Some ?s') ys (outs @ [x])
        = Returns (0, (outs @ [x]) @ diffs (last_x ?s') ys)"
    using assms by (intro diff_tokens_last) simp_all
  then show ?thesis using Cons step fl by (simp add: diff_list_def)
qed

lemma cumsum_tokens:
  assumes "active s" "op s = SEQ_OP_CUMSUM"
  shows "stream_tokens (Some s) xs outs = Returns (0, outs @ cums (acc s) xs)"
  using assms
proof (induction xs arbitrary: s outs)
  case Nil
  show ?case by simp
next
  case (Cons x xs)
  let ?s' = "s\<lparr>acc := acc s + x\<rparr>"
  have step: "seq_stream_step (Some s) True x True True
              = Returns (SEQ_OK, Some ?s', Some (acc s + x), Some True)"
    using Cons.prems by (simp add: seq_stream_step_def)
  have fl: "flush_loop (Some ?s') (outs @ [acc s + x])
            = Returns (SEQ_OK, Some ?s', outs @ [acc s + x])"
    using Cons.prems by (intro flush_loop_none) simp_all
  have "stream_tokens (Some ?s') xs (outs @ [acc s + x])
        = Returns (0, (outs @ [acc s + x]) @ cums (acc ?s') xs)"
    using Cons.prems by (intro Cons.IH) simp_all
  then show ?case using step fl by simp
qed

section \<open>Downsampling: the stream and the batch operator\<close>

lemma ds_from_append:
  "ds_from f c (ys @ zs) = ds_from f c ys @ ds_from f (c + length ys) zs"
  by (induction ys arbitrary: c) simp_all

lemma ds_from_none:
  assumes "\<And>j. j < length ys \<Longrightarrow> (c + j) mod f \<noteq> 0"
  shows "ds_from f c ys = []"
  using assms
proof (induction ys arbitrary: c)
  case Nil
  show ?case by simp
next
  case (Cons y ys)
  have "c mod f \<noteq> 0" using Cons.prems[of 0] by simp
  moreover have "ds_from f (Suc c) ys = []"
  proof (rule Cons.IH)
    fix j assume "j < length ys"
    then show "(Suc c + j) mod f \<noteq> 0" using Cons.prems[of "Suc j"] by simp
  qed
  ultimately show ?case by simp
qed

lemma ds_from_mod: "ds_from f c xs = ds_from f (c mod f) xs"
proof (induction xs arbitrary: c)
  case Nil
  show ?case by simp
next
  case (Cons x xs)
  have "ds_from f (Suc c) xs = ds_from f (Suc c mod f) xs" by (rule Cons.IH)
  also have "\<dots> = ds_from f (Suc (c mod f) mod f) xs" by (simp add: mod_Suc_eq)
  also have "\<dots> = ds_from f (Suc (c mod f)) xs" by (rule Cons.IH[symmetric])
  finally show ?case by simp
qed

lemma downsample_list_block:
  assumes "0 < f" "length xs = Suc m * f"
  shows "downsample_list f xs = xs ! 0 # downsample_list f (drop f xs)"
proof -
  have d1: "length xs div f = Suc m" using assms by simp
  have d2: "length (drop f xs) div f = m" using assms by simp
  have "map (\<lambda>i. xs ! (i * f)) [0..<Suc m]
        = xs ! 0 # map (\<lambda>i. xs ! (Suc i * f)) [0..<m]"
    by (simp add: map_upt_Suc del: upt_Suc)
  moreover have "map (\<lambda>i. xs ! (Suc i * f)) [0..<m] = map (\<lambda>i. drop f xs ! (i * f)) [0..<m]"
  proof (rule map_cong[OF refl])
    fix i assume "i \<in> set [0..<m]"
    then have "f + i * f \<le> length xs" using assms(2) by simp
    then show "xs ! (Suc i * f) = drop f xs ! (i * f)" by simp
  qed
  ultimately have "map (\<lambda>i. xs ! (i * f)) [0..<Suc m]
        = xs ! 0 # map (\<lambda>i. drop f xs ! (i * f)) [0..<m]"
    by (simp only:)
  then show ?thesis unfolding downsample_list_def d1 d2 .
qed

lemma ds_from_multiple:
  assumes "0 < f" "length xs = m * f"
  shows "ds_from f 0 xs = downsample_list f xs"
  using assms(2)
proof (induction m arbitrary: xs)
  case 0
  then show ?case by (simp add: downsample_list_def)
next
  case (Suc m)
  have len: "f \<le> length xs" using Suc.prems by simp
  then obtain x ys where tk: "take f xs = x # ys" and x: "x = xs ! 0"
    using assms(1) by (cases xs; cases f) auto
  have lys: "length ys = f - 1" using tk len by (metis One_nat_def length_take list.size(4) add_diff_cancel_right' min.absorb2)
  have none: "ds_from f (Suc 0) ys = []"
  proof (rule ds_from_none)
    fix j assume "j < length ys"
    then have "Suc 0 + j < f" using lys by simp
    then show "(Suc 0 + j) mod f \<noteq> 0" by simp
  qed
  have rest: "ds_from f 0 (drop f xs) = downsample_list f (drop f xs)"
    using Suc.prems by (intro Suc.IH) simp
  have "ds_from f 0 xs = ds_from f 0 (take f xs @ drop f xs)" by simp
  also have "\<dots> = ds_from f 0 (take f xs) @ ds_from f (0 + length (take f xs)) (drop f xs)"
    by (rule ds_from_append)
  also have "ds_from f 0 (take f xs) = [x]" using tk none by simp
  also have "ds_from f (0 + length (take f xs)) (drop f xs) = ds_from f 0 (drop f xs)"
    using len ds_from_mod[of f f "drop f xs"] by simp
  finally show ?case
    using rest x downsample_list_block[OF assms(1) Suc.prems] by simp
qed

section \<open>Stream mode against the batch operators\<close>

lemma cli_run_stream_pad_front:
  "cli_run_stream mem st0 SEQ_OP_PAD_FRONT pm fl xs = Returns (0, replicate pm 0 @ xs)"
proof -
  let ?s = "(seq_stream_reset st0)\<lparr>op := SEQ_OP_PAD_FRONT, fill := fl, param_main := pm,
              remaining := pm, active := True\<rparr>"
  have init: "seq_stream_init mem (Some st0) SEQ_OP_PAD_FRONT pm 0 fl = Returns (SEQ_OK, Some ?s)"
    by (simp add: seq_stream_init_def Let_def)
  have fl: "flush_loop (Some ?s) [] = Returns (SEQ_OK, Some (?s\<lparr>remaining := 0\<rparr>), replicate pm 0)"
    using flush_loop_zeros[of ?s "[]"] by simp
  have "stream_tokens (Some (?s\<lparr>remaining := 0\<rparr>)) xs (replicate pm 0)
        = Returns (0, replicate pm 0 @ xs)"
    by (intro pad_front_tokens) simp_all
  then show ?thesis by (simp add: cli_run_stream_def init fl)
qed

text \<open>The fill loop of \<^verbatim>\<open>seq_stream_init\<close> on a block of \<open>n\<close> slots.\<close>

lemma stream_fill_loop_eq:
  assumes "length b = n" "i \<le> n"
  shows "stream_fill_loop n fl i b = Some (take i b @ replicate (n - i) fl)"
  using assms
proof (induction n fl i b rule: stream_fill_loop.induct)
  case (1 bsize fl i b)
  show ?case
  proof (cases "i < bsize")
    case True
    have w: "wr b i fl = Some (b[i := fl])" using True "1.prems" by (simp add: wr_def)
    have "stream_fill_loop bsize fl (Suc i) (b[i := fl])
          = Some (take (Suc i) (b[i := fl]) @ replicate (bsize - Suc i) fl)"
      using True "1.prems" by (intro "1.IH"[OF True w]) simp_all
    moreover have "take (Suc i) (b[i := fl]) = take i b @ [fl]"
      using True "1.prems" by (simp add: take_Suc_update)
    moreover have "bsize - i = Suc (bsize - Suc i)" using True by simp
    then have "replicate (bsize - i) fl = fl # replicate (bsize - Suc i) fl"
      by (simp only: replicate_Suc)
    ultimately show ?thesis
      using True w by (subst stream_fill_loop.simps) simp
  next
    case False
    with "1.prems" show ?thesis
      by (subst stream_fill_loop.simps) simp
  qed
qed

lemma seq_stream_init_delay:
  assumes "mem pm" "0 < pm" "pm * 8 < 2 ^ 64"
  shows "seq_stream_init mem (Some st0) SEQ_OP_DELAY pm pa fl
         = Returns (SEQ_OK, Some ((seq_stream_reset st0)\<lparr>op := SEQ_OP_DELAY, fill := fl,
                      param_main := pm, buf := replicate pm fl, buf_size := pm, buf_head := 0,
                      active := True\<rparr>))"
proof -
  have "size_wrap (pm * 8) = pm * 8" using assms(3) by (intro size_wrap_id) simp
  then have slots: "size_wrap (pm * 8) div 8 = pm" by simp
  have "stream_fill_loop pm fl 0 (replicate pm 0) = Some (replicate pm fl)"
    by (subst stream_fill_loop_eq[where n = pm]) simp_all
  then show ?thesis
    using assms(1,2) by (simp add: seq_stream_init_def Let_def slots)
qed

text \<open>When the byte count wraps, the block is too small for the fill loop: with a delay of
  \<open>2 ^ 61\<close> samples \<^verbatim>\<open>malloc\<close> is asked for \<open>0\<close> bytes and the first store leaves the
  block.\<close>

lemma seq_stream_init_delay_wraps:
  "seq_stream_init (\<lambda>n. True) (Some st0) SEQ_OP_DELAY (2 ^ 61) 0 fl = Undefined_Behaviour"
  by (simp add: seq_stream_init_def Let_def size_wrap_def stream_fill_loop.simps wr_def)

lemma cli_run_stream_delay:
  assumes "mem pm" "pm * 8 < 2 ^ 64"
  shows "cli_run_stream mem st0 SEQ_OP_DELAY pm fl xs = Returns (0, delay_list pm fl xs)"
proof (cases "pm = 0")
  case True
  let ?s = "(seq_stream_reset st0)\<lparr>op := SEQ_OP_DELAY, fill := fl, param_main := 0,
              active := True\<rparr>"
  have init: "seq_stream_init mem (Some st0) SEQ_OP_DELAY 0 0 fl = Returns (SEQ_OK, Some ?s)"
    by (simp add: seq_stream_init_def Let_def)
  have fl: "flush_loop (Some ?s) [] = Returns (SEQ_OK, Some ?s, [])"
    by (intro flush_loop_none) simp_all
  have "stream_tokens (Some ?s) xs [] = Returns (0, [] @ xs)"
    by (intro delay0_tokens) simp_all
  then show ?thesis unfolding True by (simp add: cli_run_stream_def init fl delay_list_def)
next
  case False
  let ?s = "(seq_stream_reset st0)\<lparr>op := SEQ_OP_DELAY, fill := fl, param_main := pm,
              buf := replicate pm fl, buf_size := pm, buf_head := 0, active := True\<rparr>"
  have init: "seq_stream_init mem (Some st0) SEQ_OP_DELAY pm 0 fl = Returns (SEQ_OK, Some ?s)"
    using False assms by (simp add: seq_stream_init_delay)
  have fl: "flush_loop (Some ?s) [] = Returns (SEQ_OK, Some ?s, [])"
    by (intro flush_loop_none) simp_all
  have "stream_tokens (Some ?s) xs []
        = Returns (0, [] @ take (length xs)
                           (drop (buf_head ?s) (buf ?s) @ take (buf_head ?s) (buf ?s) @ xs))"
    using False by (intro delay_tokens[where d = pm]) simp_all
  then show ?thesis by (simp add: cli_run_stream_def init fl delay_list_def)
qed

lemma cli_run_stream_upsample:
  assumes "0 < pm"
  shows "cli_run_stream mem st0 SEQ_OP_UPSAMPLE pm fl xs = Returns (0, upsample_list pm xs)"
proof -
  let ?s = "(seq_stream_reset st0)\<lparr>op := SEQ_OP_UPSAMPLE, fill := fl, param_main := pm,
              remaining := 0, active := True\<rparr>"
  have init: "seq_stream_init mem (Some st0) SEQ_OP_UPSAMPLE pm 0 fl = Returns (SEQ_OK, Some ?s)"
    using assms by (simp add: seq_stream_init_def Let_def)
  have fl: "flush_loop (Some ?s) [] = Returns (SEQ_OK, Some ?s, [])"
    using flush_loop_zeros[of ?s "[]"] by simp
  have "stream_tokens (Some ?s) xs [] = Returns (0, [] @ upsample_list pm xs)"
    using assms by (intro upsample_tokens) simp_all
  then show ?thesis by (simp add: cli_run_stream_def init fl)
qed

lemma cli_run_stream_downsample:
  assumes "0 < pm" "length xs < 2 ^ 64"
  shows "cli_run_stream mem st0 SEQ_OP_DOWNSAMPLE pm fl xs = Returns (0, ds_from pm 0 xs)"
proof -
  let ?s = "(seq_stream_reset st0)\<lparr>op := SEQ_OP_DOWNSAMPLE, fill := fl, param_main := pm,
              counter := 0, active := True\<rparr>"
  have init: "seq_stream_init mem (Some st0) SEQ_OP_DOWNSAMPLE pm 0 fl = Returns (SEQ_OK, Some ?s)"
    using assms by (simp add: seq_stream_init_def Let_def)
  have fl: "flush_loop (Some ?s) [] = Returns (SEQ_OK, Some ?s, [])"
    by (intro flush_loop_none) simp_all
  have "stream_tokens (Some ?s) xs [] = Returns (0, [] @ ds_from pm (counter ?s) xs)"
    using assms by (intro downsample_tokens) simp_all
  then show ?thesis by (simp add: cli_run_stream_def init fl)
qed

lemma cli_run_stream_diff:
  "cli_run_stream mem st0 SEQ_OP_DIFF pm fl xs = Returns (0, diff_list xs)"
proof -
  let ?s = "(seq_stream_reset st0)\<lparr>op := SEQ_OP_DIFF, fill := fl, has_last := False,
              active := True\<rparr>"
  have init: "seq_stream_init mem (Some st0) SEQ_OP_DIFF pm 0 fl = Returns (SEQ_OK, Some ?s)"
    by (simp add: seq_stream_init_def Let_def)
  have fl: "flush_loop (Some ?s) [] = Returns (SEQ_OK, Some ?s, [])"
    by (intro flush_loop_none) simp_all
  have "stream_tokens (Some ?s) xs [] = Returns (0, [] @ diff_list xs)"
    by (intro diff_tokens) simp_all
  then show ?thesis by (simp add: cli_run_stream_def init fl)
qed

lemma cli_run_stream_cumsum:
  "cli_run_stream mem st0 SEQ_OP_CUMSUM pm fl xs = Returns (0, cums 0 xs)"
proof -
  let ?s = "(seq_stream_reset st0)\<lparr>op := SEQ_OP_CUMSUM, fill := fl, acc := 0, active := True\<rparr>"
  have init: "seq_stream_init mem (Some st0) SEQ_OP_CUMSUM pm 0 fl = Returns (SEQ_OK, Some ?s)"
    by (simp add: seq_stream_init_def Let_def)
  have fl: "flush_loop (Some ?s) [] = Returns (SEQ_OK, Some ?s, [])"
    by (intro flush_loop_none) simp_all
  have "stream_tokens (Some ?s) xs [] = Returns (0, [] @ cums (acc ?s) xs)"
    by (intro cumsum_tokens) simp_all
  then show ?thesis by (simp add: cli_run_stream_def init fl)
qed

text \<open>
  Claim C1, as the code has it.  The stream is driven the way \<^verbatim>\<open>seq_stream_step\<close> requires
  and \<^verbatim>\<open>cli_run_stream\<close> does: flush until a step produces no output before the first sample
  and again after every sample.  Then, for pad-front, delay, upsample, diff and cumsum with
  valid parameters, and for downsample when the factor divides the length, no step returns
  an error and the outputs, in order, are exactly the sequence the batch operator returns,
  allocations being granted and the sizes the code computes fitting \<^verbatim>\<open>size_t\<close>: the
  length, for pad-front the length plus the number of zeros, for upsample the length times
  the factor, for delay the byte count \<^verbatim>\<open>delay * sizeof(double)\<close> of the stream's buffer.  The samples are of an
  arbitrary type with \<open>0\<close>, \<open>+\<close> and \<open>-\<close>, no law assumed: the equality does not depend on
  how the arithmetic rounds.
\<close>

theorem C1_stream_equals_batch:
  fixes xs :: "'a::{zero,plus,minus} list"
  assumes cap: "seq_online_capable opr True"
    and par: "opr = SEQ_OP_UPSAMPLE \<or> opr = SEQ_OP_DOWNSAMPLE \<Longrightarrow> 0 < pm"
    and mult: "opr = SEQ_OP_DOWNSAMPLE \<Longrightarrow> pm dvd length xs"
    and mem: "\<And>n. mem n"
    and fit: "length xs < 2 ^ 64"
      "opr = SEQ_OP_PAD_FRONT \<Longrightarrow> length xs + pm < 2 ^ 64"
      "opr = SEQ_OP_UPSAMPLE \<Longrightarrow> length xs * pm < 2 ^ 64"
      "opr = SEQ_OP_DELAY \<Longrightarrow> pm * 8 < 2 ^ 64"
  shows "\<exists>ys. cli_run_stream mem st0 opr pm fl xs = Returns (0, ys)
          \<and> (opr = SEQ_OP_PAD_FRONT
               \<longrightarrow> seq_pad_front mem (Some xs) pm (Some dst) = Returns (SEQ_OK, Some ys))
          \<and> (opr = SEQ_OP_DELAY
               \<longrightarrow> seq_delay mem (Some xs) pm fl (Some dst) = Returns (SEQ_OK, Some ys))
          \<and> (opr = SEQ_OP_UPSAMPLE
               \<longrightarrow> seq_upsample mem (Some xs) pm (Some dst) = Returns (SEQ_OK, Some ys))
          \<and> (opr = SEQ_OP_DOWNSAMPLE
               \<longrightarrow> seq_downsample mem (Some xs) pm (Some dst) = Returns (SEQ_OK, Some ys))
          \<and> (opr = SEQ_OP_DIFF
               \<longrightarrow> seq_diff mem (Some xs) (Some dst) = Returns (SEQ_OK, Some ys))
          \<and> (opr = SEQ_OP_CUMSUM
               \<longrightarrow> seq_cumsum mem (Some xs) (Some dst) = Returns (SEQ_OK, Some ys))"
proof (cases opr)
  case SEQ_OP_PAD_FRONT
  then show ?thesis
    using cli_run_stream_pad_front[of mem st0 pm fl xs]
      seq_pad_front_eq[of xs pm mem dst] fit(2) mem by simp
next
  case SEQ_OP_DELAY
  then show ?thesis
    using cli_run_stream_delay[of mem pm st0 fl xs] seq_delay_eq[of mem xs pm fl dst] mem fit(4)
    by simp
next
  case SEQ_OP_UPSAMPLE
  then show ?thesis
    using cli_run_stream_upsample[of pm mem st0 fl xs]
      seq_upsample_eq[of pm xs mem dst] par fit(3) mem by simp
next
  case SEQ_OP_DOWNSAMPLE
  then have "pm dvd length xs" by (rule mult)
  then obtain m where m: "length xs = m * pm" by (metis dvd_def mult.commute)
  have pos: "0 < pm" using par SEQ_OP_DOWNSAMPLE by simp
  have "ds_from pm 0 xs = downsample_list pm xs" using pos m by (rule ds_from_multiple)
  then show ?thesis
    using SEQ_OP_DOWNSAMPLE cli_run_stream_downsample[of pm xs mem st0 fl]
      seq_downsample_eq[of pm xs mem dst] pos fit(1) mem by simp
next
  case SEQ_OP_DIFF
  then show ?thesis
    using cli_run_stream_diff[of mem st0 pm fl xs] seq_diff_eq[of mem xs dst] mem by simp
next
  case SEQ_OP_CUMSUM
  then show ?thesis
    using cli_run_stream_cumsum[of mem st0 pm fl xs] seq_cumsum_eq[of mem xs dst] mem by simp
next
  case SEQ_OP_PAD_BACK
  then show ?thesis using cap by simp
next
  case SEQ_OP_ADVANCE
  then show ?thesis using cap by simp
next
  case SEQ_OP_REVERSE
  then show ?thesis using cap by simp
qed

theorem C1_witness:
  "seq_online_capable SEQ_OP_UPSAMPLE True \<and> (0::nat) < 3
   \<and> length [5, 6 :: int] * 3 < (2::nat) ^ 64
   \<and> (\<exists>ys. cli_run_stream (\<lambda>n. True)
               \<lparr>active = False, op = SEQ_OP_DIFF, param_main = 7, param_aux = 0, fill = 0,
                 buf = [], buf_size = 0, buf_head = 0, counter = 0, remaining = 0,
                 last_x = 0, has_last = False, acc = 0\<rparr>
               SEQ_OP_UPSAMPLE 3 0 [5, 6 :: int] = Returns (0, ys)
          \<and> seq_upsample (\<lambda>n. True) (Some [5, 6]) 3 (Some []) = Returns (SEQ_OK, Some ys))"
  using C1_stream_equals_batch
    [of SEQ_OP_UPSAMPLE 3 "[5, 6 :: int]" "\<lambda>n. True"
        "\<lparr>active = False, op = SEQ_OP_DIFF, param_main = 7, param_aux = 0, fill = 0,
          buf = [], buf_size = 0, buf_head = 0, counter = 0, remaining = 0,
          last_x = 0, has_last = False, acc = 0\<rparr>" 0 "[]"]
  by simp

text \<open>Fed as the claim is worded (all samples first, the flush afterwards) a pad-front
  stream with pending zeros rejects the first sample with \<^verbatim>\<open>SEQ_ERR_STATE\<close>, while the
  batch operator succeeds; and a downsampling stream lets through the first sample of a
  last, incomplete group, which the batch operator drops.\<close>

lemmas stream_eval =
  cli_run_stream_def spec_feed_then_flush_def seq_stream_init_def seq_stream_reset_def
  seq_stream_step_def flush_loop.simps size_wrap_def rd_def wr_def Let_def

lemmas batch_eval =
  seq_prepare_output_def seq_alloc_def seq_free_def size_wrap_def rd_def wr_def Let_def
  replicate_num

theorem C1_counterexample:
  "spec_feed_then_flush (\<lambda>n. True)
     \<lparr>active = False, op = SEQ_OP_DIFF, param_main = 7, param_aux = 0, fill = 0,
       buf = [], buf_size = 0, buf_head = 0, counter = 0, remaining = 0,
       last_x = 0, has_last = False, acc = 0\<rparr>
     SEQ_OP_PAD_FRONT 1 0 [5 :: int] = Returns (SEQ_ERR_STATE, [])
   \<and> seq_pad_front (\<lambda>n. True) (Some [5 :: int]) 1 (Some []) = Returns (SEQ_OK, Some [0, 5])
   \<and> spec_feed_then_flush (\<lambda>n. True)
     \<lparr>active = False, op = SEQ_OP_DIFF, param_main = 7, param_aux = 0, fill = 0,
       buf = [], buf_size = 0, buf_head = 0, counter = 0, remaining = 0,
       last_x = 0, has_last = False, acc = 0\<rparr>
     SEQ_OP_DOWNSAMPLE 2 0 [1, 2, 3 :: int] = Returns (SEQ_OK, [1, 3])
   \<and> seq_downsample (\<lambda>n. True) (Some [1, 2, 3 :: int]) 2 (Some []) = Returns (SEQ_OK, Some [1])"
  by (simp add: stream_eval seq_pad_front_def batch_eval
        pad_front_zeros.simps pad_front_copy.simps seq_downsample_def downsample_loop.simps)

text \<open>The same difference under the driver of \<^verbatim>\<open>cli_run_stream\<close>.\<close>

lemma downsample_stream_and_batch_differ:
  "cli_run_stream (\<lambda>n. True)
     \<lparr>active = False, op = SEQ_OP_DIFF, param_main = 7, param_aux = 0, fill = 0,
       buf = [], buf_size = 0, buf_head = 0, counter = 0, remaining = 0,
       last_x = 0, has_last = False, acc = 0\<rparr>
     SEQ_OP_DOWNSAMPLE 2 0 [1, 2, 3 :: int] = Returns (0, [1, 3])
   \<and> seq_downsample (\<lambda>n. True) (Some [1, 2, 3 :: int]) 2 (Some []) = Returns (SEQ_OK, Some [1])"
  by (simp add: stream_eval seq_downsample_def batch_eval downsample_loop.simps)


text \<open>The sizes that the batch operators compute wrap likewise when they do not fit
  \<^verbatim>\<open>size_t\<close>: the output is then too short for the loops that fill it.\<close>

lemma seq_pad_front_wraps:
  "seq_pad_front (\<lambda>n. True) (Some [1 :: int]) (2 ^ 64 - 1) (Some []) = Undefined_Behaviour"
  by (simp add: seq_pad_front_def batch_eval pad_front_zeros.simps)

lemma seq_upsample_wraps:
  "seq_upsample (\<lambda>n. True) (Some [1, 2, 3, 4 :: int]) (2 ^ 62) (Some []) = Undefined_Behaviour"
  by (simp add: seq_upsample_def batch_eval upsample_zero.simps upsample_place.simps)

end
